theory Spec2Isabelle
  imports Complex_Main "HOL-Library.Log_Nat"
begin

section \<open>Errors\<close>

text \<open>
  The exceptions of the Python code, as values. \<open>SystemError\<close> is the
  \<^verbatim>\<open>SystemError('Mismatch between offsets')\<close> of \<^verbatim>\<open>BufferedOutput.get_samples\<close>
  (the specification calls it ContractViolation); \<open>ValueError\<close> is what NumPy raises when
  an array cannot be broadcast into a slice or when nothing is given to
  \<^verbatim>\<open>np.concatenate\<close>; \<open>AttributeError\<close> is a method call on \<^verbatim>\<open>None\<close>;
  \<open>CalibrationError\<close> is the class of that name in the calibration module (the
  specification calls it CalibrationLookupError).
\<close>

datatype error =
    SystemError
  | RangeError
  | ValueError
  | AttributeError
  | IndexError
  | CalibrationError

section \<open>SignalBuffer\<close>

text \<open>
  Modelled from the spec: the class \<^verbatim>\<open>SignalBuffer\<close> of \<^verbatim>\<open>psi.util\<close>, which
  \<^verbatim>\<open>output.py\<close> imports and which is not among the source files. The specification
  (SampleRingBuffer) gives it a capacity, the absolute bounds \<open>lb\<close> and \<open>ub\<close> of the
  cached range, and three operations: append extends the range and drops the oldest
  samples beyond the capacity, get_range returns \<open>[lo, hi)\<close> and fails with RangeError
  when \<open>lo < lb\<close> or \<open>hi > ub\<close>, and invalidate_from sets \<open>ub\<close> to
  \<open>min ub offset\<close>. The operations carry the names under which \<^verbatim>\<open>output.py\<close>
  calls them. The cached samples are kept oldest first, so \<open>lb = ub - length cached\<close>.
\<close>

record signal_buffer =
  capacity :: nat
  samples_ub :: int
  cached :: "real list"

definition get_samples_ub :: "signal_buffer \<Rightarrow> int" where
  "get_samples_ub b = samples_ub b"

definition get_samples_lb :: "signal_buffer \<Rightarrow> int" where
  "get_samples_lb b = samples_ub b - int (length (cached b))"

definition append_data :: "real list \<Rightarrow> signal_buffer \<Rightarrow> signal_buffer" where
  "append_data xs b =
     (let every = cached b @ xs
      in b\<lparr>samples_ub := samples_ub b + int (length xs),
            cached := drop (length every - capacity b) every\<rparr>)"

definition get_range_samples :: "int \<Rightarrow> int \<Rightarrow> signal_buffer \<Rightarrow> error + real list" where
  "get_range_samples lo hi b =
     (if lo < get_samples_lb b \<or> hi > get_samples_ub b then Inl RangeError
      else Inr (take (nat (hi - lo)) (drop (nat (lo - get_samples_lb b)) (cached b))))"

definition invalidate_samples :: "int \<Rightarrow> signal_buffer \<Rightarrow> signal_buffer" where
  "invalidate_samples i b =
     (let ub = min (get_samples_ub b) i
      in b\<lparr>samples_ub := ub, cached := take (nat (ub - get_samples_lb b)) (cached b)\<rparr>)"

section \<open>Output channels\<close>

text \<open>
  The classes of \<^verbatim>\<open>output.py\<close> as records, each subclass extending its base:
  \<^verbatim>\<open>Output\<close> (the filter delay of its target and the registered callbacks),
  \<^verbatim>\<open>BufferedOutput\<close> (\<^verbatim>\<open>_buffer\<close>, \<^verbatim>\<open>_offset\<close>, \<^verbatim>\<open>active\<close>,
  \<^verbatim>\<open>source\<close>) and \<^verbatim>\<open>QueuedEpochOutput\<close>. The fields \<open>u_buffer\<close> and
  \<open>u_offset\<close> are the attributes \<^verbatim>\<open>_buffer\<close> and \<^verbatim>\<open>_offset\<close>, whose names
  cannot start with an underscore here. A callback is known by an identifier. The type
  \<open>'q\<close> is the state of the source object; \<^verbatim>\<open>source = None\<close> is \<open>None\<close>.
\<close>

type_synonym callback = nat

record Output =
  filter_delay :: real
  callbacks :: "callback list"

record 'q BufferedOutput = Output +
  u_buffer :: signal_buffer
  u_offset :: int
  active :: bool
  source :: "'q option"

text \<open>
  \<^verbatim>\<open>QueuedEpochOutput\<close>: \<open>queue\<close> is the state of the queue object,
  \<open>complete\<close> counts how often the \<^verbatim>\<open>complete\<close> event has fired, and
  \<open>deferred_calls\<close> is the list of calls that \<^verbatim>\<open>enaml.application.deferred_call\<close>
  has handed to the event loop of the application and that have not run yet.
  \<open>hw_ao_updates\<close> records the calls of \<^verbatim>\<open>engine.update_hw_ao\<close>.
\<close>

record 'q QueuedEpochOutput = "'q BufferedOutput" +
  queue :: 'q
  auto_decrement :: bool
  complete_cb :: "callback option"
  complete :: nat
  paused :: bool
  deferred_calls :: "callback list"
  hw_ao_updates :: "int list"

subsection \<open>The objects a channel draws from\<close>

text \<open>
  Modelled from the spec: the waveform source (\<^verbatim>\<open>psi.token\<close>) that
  \<^verbatim>\<open>EpochOutput\<close> and \<^verbatim>\<open>ContinuousOutput\<close> hold in \<^verbatim>\<open>source\<close> is not among
  the source files. It is an object with the methods \<^verbatim>\<open>next(n)\<close>, which returns
  samples and advances the object, and \<^verbatim>\<open>is_complete()\<close>. The methods are taken as
  parameters, so that the channel is modelled for every source.
\<close>

record 'q source_methods =
  src_next :: "nat \<Rightarrow> 'q \<Rightarrow> real list \<times> 'q"
  src_is_complete :: "'q \<Rightarrow> bool"

text \<open>
  Modelled from the spec: the queue (\<^verbatim>\<open>psi.controller.queue\<close>) of a
  \<^verbatim>\<open>QueuedEpochOutput\<close> is not among the source files either. Its methods
  \<^verbatim>\<open>pop_buffer(samples, decrement)\<close>, \<^verbatim>\<open>is_empty()\<close>, \<^verbatim>\<open>pause(t)\<close> and
  \<^verbatim>\<open>resume(t)\<close> are parameters.
\<close>

record 'q queue_methods =
  pop_buffer :: "nat \<Rightarrow> bool \<Rightarrow> 'q \<Rightarrow> real list \<times> 'q"
  is_empty :: "'q \<Rightarrow> bool"
  queue_pause :: "real \<Rightarrow> 'q \<Rightarrow> 'q"
  queue_resume :: "real \<Rightarrow> 'q \<Rightarrow> 'q"

subsection \<open>BufferedOutput\<close>

definition activate :: "int \<Rightarrow> ('q, 'z) BufferedOutput_scheme \<Rightarrow> ('q, 'z) BufferedOutput_scheme" where
  "activate off s = s\<lparr>active := True, u_offset := off,
                      u_buffer := invalidate_samples off (u_buffer s)\<rparr>"

definition deactivate :: "int \<Rightarrow> ('q, 'z) BufferedOutput_scheme \<Rightarrow> ('q, 'z) BufferedOutput_scheme" where
  "deactivate off s = s\<lparr>active := False, source := None,
                        u_buffer := invalidate_samples off (u_buffer s)\<rparr>"

text \<open>
  \<^verbatim>\<open>out[i:j] = v\<close> on a one-dimensional NumPy array, with \<open>i \<le> j \<le> length out\<close>
  already normalised from Python's slice: \<open>v\<close> must have the length of the slice or
  the length 1 (it is then broadcast); anything else raises ValueError.
\<close>

definition assign_slice :: "real list \<Rightarrow> nat \<Rightarrow> nat \<Rightarrow> real list \<Rightarrow> error + real list" where
  "assign_slice out i j v =
     (if length v = j - i then Inr (take i out @ v @ drop j out)
      else if length v = 1 then Inr (take i out @ replicate (j - i) (hd v) @ drop j out)
      else Inl ValueError)"

text \<open>
  \<^verbatim>\<open>get_samples\<close> in its three blocks. The first compares the request with the cached
  range and copies what the buffer holds; it leaves the array, the number of samples
  still missing and the offset of the first of them. A request that starts below the
  cached range matches no branch of the source's \<^verbatim>\<open>if\<close> chain and falls through.
\<close>

definition from_buffer ::
  "int \<Rightarrow> nat \<Rightarrow> real list \<Rightarrow> signal_buffer \<Rightarrow> error + (real list \<times> nat \<times> int)" where
  "from_buffer off samples out b =
     (let lb = off; ub = off + int samples;
          buffered_lb = get_samples_lb b; buffered_ub = get_samples_ub b
      in if lb > buffered_ub then Inl SystemError
         else if lb = buffered_ub then Inr (out, samples, off)
         else if lb \<ge> buffered_lb \<and> ub \<le> buffered_ub then
           (case get_range_samples lb ub b of
              Inl e \<Rightarrow> Inl e
            | Inr r \<Rightarrow>
                (case assign_slice out 0 (length out) r of
                   Inl e \<Rightarrow> Inl e
                 | Inr out' \<Rightarrow> Inr (out', 0, ub)))
         else if lb \<ge> buffered_lb \<and> ub > buffered_ub then
           (case get_range_samples lb buffered_ub b of
              Inl e \<Rightarrow> Inl e
            | Inr r \<Rightarrow>
                (case assign_slice out 0 (min (length r) (length out)) r of
                   Inl e \<Rightarrow> Inl e
                 | Inr out' \<Rightarrow> Inr (out', samples - length r, off + int (length r))))
         else Inr (out, samples, off))"

text \<open>
  The second block ("Don't generate new samples if occuring before activation"): zeros
  up to the activation offset, appended to the buffer as well.
\<close>

definition before_activation ::
  "real list \<times> nat \<times> int \<Rightarrow> ('q, 'z) BufferedOutput_scheme \<Rightarrow>
     error + ((real list \<times> nat \<times> int) \<times> ('q, 'z) BufferedOutput_scheme)" where
  "before_activation st s =
     (case st of (out, samples, off) \<Rightarrow>
        if samples > 0 \<and> off < u_offset s then
          (let k = min (nat (u_offset s - off)) samples;
               data = replicate k 0;
               s' = s\<lparr>u_buffer := append_data data (u_buffer s)\<rparr>;
               n = length out
           in case (if samples = k then assign_slice out (n - samples) n data
                    else assign_slice out (n - samples) (n - (samples - k)) data) of
                Inl e \<Rightarrow> Inl e
              | Inr out' \<Rightarrow> Inr ((out', samples - k, off + int k), s'))
        else Inr (st, s))"

text \<open>
  The third block ("Generate new samples"): the rest comes from
  \<^verbatim>\<open>get_next_samples\<close>, the method each subclass overrides, here the parameter
  \<open>gns\<close>.
\<close>

definition generate ::
  "(nat \<Rightarrow> ('q, 'z) BufferedOutput_scheme \<Rightarrow> error + (real list \<times> ('q, 'z) BufferedOutput_scheme)) \<Rightarrow>
   real list \<times> nat \<times> int \<Rightarrow> ('q, 'z) BufferedOutput_scheme \<Rightarrow>
     error + (real list \<times> ('q, 'z) BufferedOutput_scheme)" where
  "generate gns st s =
     (case st of (out, samples, off) \<Rightarrow>
        if samples > 0 then
          (case gns samples s of
             Inl e \<Rightarrow> Inl e
           | Inr (data, s') \<Rightarrow>
               (case assign_slice out (length out - samples) (length out) data of
                  Inl e \<Rightarrow> Inl e
                | Inr out' \<Rightarrow> Inr (out', s'\<lparr>u_buffer := append_data data (u_buffer s')\<rparr>)))
        else Inr (out, s))"

definition get_samples ::
  "(nat \<Rightarrow> ('q, 'z) BufferedOutput_scheme \<Rightarrow> error + (real list \<times> ('q, 'z) BufferedOutput_scheme)) \<Rightarrow>
   int \<Rightarrow> nat \<Rightarrow> real list \<Rightarrow> ('q, 'z) BufferedOutput_scheme \<Rightarrow>
     error + (real list \<times> ('q, 'z) BufferedOutput_scheme)" where
  "get_samples gns off samples out s =
     (case from_buffer off samples out (u_buffer s) of
        Inl e \<Rightarrow> Inl e
      | Inr st \<Rightarrow>
          (case before_activation st s of
             Inl e \<Rightarrow> Inl e
           | Inr (st', s') \<Rightarrow> generate gns st' s'))"

subsection \<open>EpochOutput, QueuedEpochOutput and ContinuousOutput\<close>

text \<open>
  \<^verbatim>\<open>EpochOutput.get_next_samples\<close>. The zeros it adds come before the waveform, up to
  the activation offset. With \<^verbatim>\<open>source = None\<close> the call of \<^verbatim>\<open>is_complete\<close> (or
  already that of \<^verbatim>\<open>next\<close>) raises AttributeError; with nothing to concatenate (a
  request of no samples) \<^verbatim>\<open>np.concatenate\<close> raises ValueError.
\<close>

definition EpochOutput_get_next_samples ::
  "'q source_methods \<Rightarrow> nat \<Rightarrow> ('q, 'z) BufferedOutput_scheme \<Rightarrow>
     error + (real list \<times> ('q, 'z) BufferedOutput_scheme)" where
  "EpochOutput_get_next_samples M samples s =
     (if active s then
        (let buffered_ub = get_samples_ub (u_buffer s);
             zero_padding = min (nat (max (u_offset s - buffered_ub) 0)) samples;
             waveform_samples = samples - zero_padding
         in case source s of
              None \<Rightarrow> Inl AttributeError
            | Some q \<Rightarrow>
                (let (w, q') = (if waveform_samples \<noteq> 0 then src_next M waveform_samples q
                                else ([], q));
                     s1 = s\<lparr>source := Some q'\<rparr>;
                     s2 = (if src_is_complete M q'
                           then deactivate (get_samples_ub (u_buffer s1)) s1 else s1)
                 in if zero_padding = 0 \<and> waveform_samples = 0 then Inl ValueError
                    else Inr (replicate zero_padding 0 @ w, s2)))
      else Inr (replicate samples 0, s))"

text \<open>
  \<^verbatim>\<open>QueuedEpochOutput.get_next_samples\<close>. When the queue is empty after the pop and a
  callback is registered, the event fires, the callback goes to
  \<^verbatim>\<open>deferred_call\<close> and \<^verbatim>\<open>active\<close> is cleared.
\<close>

definition QueuedEpochOutput_get_next_samples ::
  "'q queue_methods \<Rightarrow> nat \<Rightarrow> ('q, 'z) QueuedEpochOutput_scheme \<Rightarrow>
     error + (real list \<times> ('q, 'z) QueuedEpochOutput_scheme)" where
  "QueuedEpochOutput_get_next_samples Q samples s =
     (if active s then
        (let (waveform, q') = pop_buffer Q samples (auto_decrement s) (queue s);
             s1 = s\<lparr>queue := q'\<rparr>
         in case complete_cb s1 of
              Some cb \<Rightarrow>
                if is_empty Q q'
                then Inr (waveform, s1\<lparr>complete := complete s1 + 1,
                                        deferred_calls := deferred_calls s1 @ [cb],
                                        active := False\<rparr>)
                else Inr (waveform, s1)
            | None \<Rightarrow> Inr (waveform, s1))
      else Inr (replicate samples 0, s))"

definition ContinuousOutput_get_next_samples ::
  "'q source_methods \<Rightarrow> nat \<Rightarrow> ('q, 'z) BufferedOutput_scheme \<Rightarrow>
     error + (real list \<times> ('q, 'z) BufferedOutput_scheme)" where
  "ContinuousOutput_get_next_samples M samples s =
     (if active s then
        (case source s of
           None \<Rightarrow> Inl AttributeError
         | Some q \<Rightarrow> (let (w, q') = src_next M samples q in Inr (w, s\<lparr>source := Some q'\<rparr>)))
      else Inr (replicate samples 0, s))"

text \<open>
  A run of calls of \<^verbatim>\<open>get_next_samples\<close>, one per requested length, stopping at the
  first exception.
\<close>

fun next_samples_run ::
  "(nat \<Rightarrow> 's \<Rightarrow> error + (real list \<times> 's)) \<Rightarrow> nat list \<Rightarrow> 's \<Rightarrow> error + (real list list \<times> 's)" where
  "next_samples_run gns [] s = Inr ([], s)"
| "next_samples_run gns (n # ns) s =
     (case gns n s of
        Inl e \<Rightarrow> Inl e
      | Inr (w, s') \<Rightarrow>
          (case next_samples_run gns ns s' of
             Inl e \<Rightarrow> Inl e
           | Inr (ws, s'') \<Rightarrow> Inr (w # ws, s'')))"

text \<open>
  What a queue does under a run of \<^verbatim>\<open>pop_buffer\<close> calls: the waveforms it returns,
  the state it ends in, and whether some call of the run left it empty.
\<close>

fun pop_run :: "'q queue_methods \<Rightarrow> bool \<Rightarrow> nat list \<Rightarrow> 'q \<Rightarrow> real list list \<times> 'q" where
  "pop_run Q dec [] q = ([], q)"
| "pop_run Q dec (n # ns) q =
     (let (w, q') = pop_buffer Q n dec q; (ws, q'') = pop_run Q dec ns q' in (w # ws, q''))"

fun drains :: "'q queue_methods \<Rightarrow> bool \<Rightarrow> nat list \<Rightarrow> 'q \<Rightarrow> bool" where
  "drains Q dec [] q = False"
| "drains Q dec (n # ns) q =
     (let q' = snd (pop_buffer Q n dec q) in is_empty Q q' \<or> drains Q dec ns q')"

text \<open>
  The same run as the channel sees it: it stops drawing from the queue at the first pop
  that leaves the queue empty.
\<close>

fun pop_run_until_empty ::
  "'q queue_methods \<Rightarrow> bool \<Rightarrow> nat list \<Rightarrow> 'q \<Rightarrow> real list list \<times> 'q" where
  "pop_run_until_empty Q dec [] q = ([], q)"
| "pop_run_until_empty Q dec (n # ns) q =
     (let (w, q') = pop_buffer Q n dec q
      in if is_empty Q q' then (w # map (\<lambda>m. replicate m 0) ns, q')
         else (let (ws, q'') = pop_run_until_empty Q dec ns q' in (w # ws, q'')))"

subsection \<open>Pause and resume of a QueuedEpochOutput\<close>

text \<open>
  Times and the sampling rate are Python floats, that is IEEE 754 binary64 numbers. A
  float is modelled by the real number it stands for (infinities and NaN are left out).
  The sum and the product of two floats are the exact sum and product rounded to the
  nearest float, a tie going to the float with the even significand; \<open>binary64\<close> is that
  rounding for the numbers of the normal range (between about \<open>2.2e-308\<close> and
  \<open>1.8e308\<close> in magnitude): \<open>float_exponent x\<close> is the \<open>e\<close> with
  \<open>2 ^ e \<le> \<bar>x\<bar> < 2 ^ (e + 1)\<close>, and the significand has 53 bits.
\<close>

definition float_exponent :: "real \<Rightarrow> int" where
  "float_exponent x =
     (if 1 \<le> \<bar>x\<bar> then bitlen \<lfloor>\<bar>x\<bar>\<rfloor> - 1 else - bitlen (\<lceil>1 / \<bar>x\<bar>\<rceil> - 1))"

text \<open>
  Python's \<^verbatim>\<open>round\<close> (to the nearest integer, a tie to the even one), the conversion
  the specification names.
\<close>

definition py_round :: "real \<Rightarrow> int" where
  "py_round x =
     (let f = \<lfloor>x\<rfloor>; d = x - of_int f
      in if d < 1 / 2 then f else if 1 / 2 < d then f + 1 else if even f then f else f + 1)"

definition binary64 :: "real \<Rightarrow> real" where
  "binary64 x =
     (if x = 0 then 0
      else (let u = 2 powi (float_exponent x - 52) in of_int (py_round (x / u)) * u))"

text \<open>The operators \<^verbatim>\<open>+\<close> and \<^verbatim>\<open>*\<close> of Python on two floats.\<close>

definition fl_add :: "real \<Rightarrow> real \<Rightarrow> real" where
  "fl_add a b = binary64 (a + b)"

definition fl_mul :: "real \<Rightarrow> real \<Rightarrow> real" where
  "fl_mul a b = binary64 (a * b)"

text \<open>Python's \<^verbatim>\<open>int\<close> on a float truncates toward zero; no rounding is involved.\<close>

definition py_int :: "real \<Rightarrow> int" where
  "py_int x = (if 0 \<le> x then \<lfloor>x\<rfloor> else \<lceil>x\<rceil>)"

text \<open>
  \<open>ts\<close> is what \<^verbatim>\<open>engine.get_ts()\<close> returns and \<open>fs\<close> the sampling rate of the
  channel, both floats. The lock of the engine is not modelled.
\<close>

definition pause ::
  "'q queue_methods \<Rightarrow> real \<Rightarrow> real \<Rightarrow> ('q, 'z) QueuedEpochOutput_scheme \<Rightarrow> ('q, 'z) QueuedEpochOutput_scheme" where
  "pause Q ts fs s =
     (let s1 = s\<lparr>paused := True\<rparr>;
          pause_time = fl_add ts 1;
          s2 = s1\<lparr>queue := queue_pause Q pause_time (queue s1)\<rparr>;
          off = py_int (fl_mul (fl_add pause_time 1) fs);
          s3 = s2\<lparr>u_buffer := invalidate_samples off (u_buffer s2)\<rparr>
      in s3\<lparr>hw_ao_updates := hw_ao_updates s3 @ [off]\<rparr>)"

definition resume ::
  "'q queue_methods \<Rightarrow> real \<Rightarrow> real \<Rightarrow> ('q, 'z) QueuedEpochOutput_scheme \<Rightarrow> ('q, 'z) QueuedEpochOutput_scheme" where
  "resume Q ts fs s =
     (let resume_time = fl_add ts 1;
          off = py_int (fl_mul (fl_add resume_time 1) fs);
          s1 = s\<lparr>u_buffer := invalidate_samples off (u_buffer s)\<rparr>;
          s2 = s1\<lparr>queue := queue_resume Q resume_time (queue s1)\<rparr>;
          s3 = s2\<lparr>hw_ao_updates := hw_ao_updates s2 @ [off]\<rparr>
      in s3\<lparr>paused := False\<rparr>)"

definition toggle_pause ::
  "'q queue_methods \<Rightarrow> real \<Rightarrow> real \<Rightarrow> ('q, 'z) QueuedEpochOutput_scheme \<Rightarrow> ('q, 'z) QueuedEpochOutput_scheme" where
  "toggle_pause Q ts fs s = (if paused s then resume Q ts fs s else pause Q ts fs s)"

subsection \<open>Output.connect and Output.notify\<close>

text \<open>
  The chunk handed to \<^verbatim>\<open>notify\<close> is a dictionary with a float under \<^verbatim>\<open>'t0'\<close>, the
  samples and the metadata. Python passes it by reference, so the objects live in a
  store, a list indexed by address. \<^verbatim>\<open>data.copy()\<close> allocates a new object,
  \<^verbatim>\<open>d['t0'] += self.filter_delay\<close> rebinds the key in that copy, and each callback is
  called with the address of the copy. The model returns the store after these steps and
  the calls in the order they are made; what a callback does with its argument is not
  part of \<^verbatim>\<open>notify\<close>.
\<close>

record 'm chunk =
  t0 :: real
  chunk_samples :: "real list"
  metadata :: 'm

definition connect :: "callback \<Rightarrow> 'z Output_scheme \<Rightarrow> 'z Output_scheme" where
  "connect cb s = s\<lparr>callbacks := callbacks s @ [cb]\<rparr>"

definition notify ::
  "nat \<Rightarrow> 'z Output_scheme \<Rightarrow> 'm chunk list \<Rightarrow> 'm chunk list \<times> (callback \<times> nat) list" where
  "notify data s store =
     (let d = length store;
          store1 = store @ [store ! data];
          store2 = store1[d := (store1 ! d)\<lparr>t0 := t0 (store1 ! d) + filter_delay s\<rparr>]
      in (store2, map (\<lambda>cb. (cb, d)) (callbacks s)))"

subsection \<open>Sources and queues to run the channels on\<close>

text \<open>
  Modelled from the spec: a finite epoch as the specification's contract describes it,
  \<^verbatim>\<open>next(n)\<close> returning \<open>n\<close> samples, here the rest of the waveform followed by
  silence, and \<^verbatim>\<open>is_complete()\<close> telling that the waveform is used up. The state is
  what is left of the waveform.
\<close>

definition EpochSource :: "(real list) source_methods" where
  "EpochSource =
     \<lparr>src_next = (\<lambda>n q. (take n q @ replicate (n - length q) 0, drop n q)),
      src_is_complete = (\<lambda>q. q = [])\<rparr>"

text \<open>
  A queue reduced to the samples it still holds; it pads with silence once it is
  empty. Pausing and resuming leave it as it is.
\<close>

definition SampleQueue :: "(real list) queue_methods" where
  "SampleQueue =
     \<lparr>pop_buffer = (\<lambda>n dec q. (take n q @ replicate (n - length q) 0, drop n q)),
      is_empty = (\<lambda>q. q = []),
      queue_pause = (\<lambda>t q. q),
      queue_resume = (\<lambda>t q. q)\<rparr>"

section \<open>Calibration\<close>

text \<open>
  \<^verbatim>\<open>PointCalibration\<close> and \<^verbatim>\<open>InterpCalibration\<close> declare the same three fields.
  The frequency handed to \<^verbatim>\<open>get_sens\<close> is a number or an iterable of numbers.
  Frequencies and sensitivities are floats, modelled as real numbers; the one float that
  is no number, NaN, is kept apart.
\<close>

record sampled_calibration =
  frequency :: "real list"
  sensitivity :: "real list"
  fixed_gain :: real

datatype 'a scalar_or_array = Scalar 'a | Array "'a list"

datatype npfloat = Num real | NaN

text \<open>
  \<^verbatim>\<open>np.flatnonzero(np.equal(self.frequency, frequency))[0]\<close>: the first index at which
  the calibrated frequencies hold the requested one; \<open>None\<close> is the IndexError that the
  source catches.
\<close>

fun first_index :: "real list \<Rightarrow> real \<Rightarrow> nat option" where
  "first_index [] f = None"
| "first_index (x # xs) f = (if x = f then Some 0 else map_option Suc (first_index xs f))"

definition PointCalibration__get_sens :: "sampled_calibration \<Rightarrow> real \<Rightarrow> error + real" where
  "PointCalibration__get_sens c f =
     (case first_index (frequency c) f of
        None \<Rightarrow> Inl CalibrationError
      | Some i \<Rightarrow>
          if i < length (sensitivity c) then Inr (sensitivity c ! i - fixed_gain c)
          else Inl IndexError)"

fun get_sens_each :: "sampled_calibration \<Rightarrow> real list \<Rightarrow> error + real list" where
  "get_sens_each c [] = Inr []"
| "get_sens_each c (f # fs) =
     (case PointCalibration__get_sens c f of
        Inl e \<Rightarrow> Inl e
      | Inr v \<Rightarrow> (case get_sens_each c fs of Inl e \<Rightarrow> Inl e | Inr vs \<Rightarrow> Inr (v # vs)))"

fun PointCalibration_get_sens ::
  "sampled_calibration \<Rightarrow> real scalar_or_array \<Rightarrow> error + real scalar_or_array" where
  "PointCalibration_get_sens c (Array fs) =
     (case get_sens_each c fs of Inl e \<Rightarrow> Inl e | Inr vs \<Rightarrow> Inr (Array vs))"
| "PointCalibration_get_sens c (Scalar f) =
     (case PointCalibration__get_sens c f of Inl e \<Rightarrow> Inl e | Inr v \<Rightarrow> Inr (Scalar v))"

text \<open>
  \<^verbatim>\<open>interp1d(frequency, sensitivity, 'linear', bounds_error=False)\<close> of SciPy, which
  \<^verbatim>\<open>InterpCalibration.__init__\<close> stores in \<^verbatim>\<open>_interp\<close>: the points are sorted by
  frequency, a request between two neighbours is interpolated on the line through them,
  and, no \<^verbatim>\<open>fill_value\<close> being given, a request outside the calibrated range yields
  NaN.
\<close>

fun interp_linear :: "(real \<times> real) list \<Rightarrow> real \<Rightarrow> npfloat" where
  "interp_linear ((x0, y0) # (x1, y1) # ps) x =
     (if x0 \<le> x \<and> x \<le> x1 then Num ((y1 - y0) / (x1 - x0) * (x - x0) + y0)
      else interp_linear ((x1, y1) # ps) x)"
| "interp_linear ps x = NaN"

definition interp1d :: "real list \<Rightarrow> real list \<Rightarrow> real \<Rightarrow> npfloat" where
  "interp1d xs ys x = interp_linear (sort_key fst (zip xs ys)) x"

definition npfloat_minus :: "npfloat \<Rightarrow> real \<Rightarrow> npfloat" where
  "npfloat_minus v g = (case v of NaN \<Rightarrow> NaN | Num y \<Rightarrow> Num (y - g))"

fun InterpCalibration_get_sens ::
  "sampled_calibration \<Rightarrow> real scalar_or_array \<Rightarrow> error + npfloat scalar_or_array" where
  "InterpCalibration_get_sens c (Scalar f) =
     Inr (Scalar (npfloat_minus (interp1d (frequency c) (sensitivity c) f) (fixed_gain c)))"
| "InterpCalibration_get_sens c (Array fs) =
     Inr (Array (map (\<lambda>f. npfloat_minus (interp1d (frequency c) (sensitivity c) f)
                              (fixed_gain c)) fs))"

section \<open>The trial queue\<close>


















section \<open>Runs of pulls\<close>

text \<open>
  A run of \<^verbatim>\<open>get_samples\<close> calls without gaps: each call is given its own array
  \<open>out\<close>, asks for as many samples as the array holds and starts where the previous
  call ended. The run stops at the first exception; otherwise it returns the arrays
  joined in order, and the state after the last call.
\<close>

fun get_samples_run ::
  "(nat \<Rightarrow> ('q, 'z) BufferedOutput_scheme \<Rightarrow> error + (real list \<times> ('q, 'z) BufferedOutput_scheme)) \<Rightarrow>
   int \<Rightarrow> real list list \<Rightarrow> ('q, 'z) BufferedOutput_scheme \<Rightarrow>
     error + (real list \<times> ('q, 'z) BufferedOutput_scheme)" where
  "get_samples_run gns off [] s = Inr ([], s)"
| "get_samples_run gns off (out # outs) s =
     (case get_samples gns off (length out) out s of
        Inl e \<Rightarrow> Inl e
      | Inr (chunk, s') \<Rightarrow>
          (case get_samples_run gns (off + int (length out)) outs s' of
             Inl e \<Rightarrow> Inl e
           | Inr (chunks, s'') \<Rightarrow> Inr (chunk @ chunks, s'')))"

text \<open>
  Modelled from the spec: what the specification says of a waveform source, as far as
  pulling it in chunks is concerned. \<^verbatim>\<open>next(n)\<close> returns \<open>n\<close> samples; the source
  is a sequence of samples, so two calls in a row return what one call of the joint
  length returns; and a source that reports completion yields silence from then on and
  stays complete.
\<close>

definition source_contract :: "'q source_methods \<Rightarrow> bool" where
  "source_contract M =
     ((\<forall>n q. length (fst (src_next M n q)) = n)
      \<and> (\<forall>a b q. src_next M (a + b) q =
            (let (w1, q1) = src_next M a q; (w2, q2) = src_next M b q1 in (w1 @ w2, q2)))
      \<and> (\<forall>n q. src_is_complete M q \<longrightarrow>
            fst (src_next M n q) = replicate n 0 \<and> src_is_complete M (snd (src_next M n q))))"

text \<open>
  Modelled from the spec: \<^verbatim>\<open>pop_buffer\<close> is the contract of a waveform source for the
  queue. It returns \<open>n\<close> samples; two calls in a row return what one call of the joint
  length returns; and a queue that is empty yields silence and stays empty.
\<close>

definition queue_contract :: "'q queue_methods \<Rightarrow> bool" where
  "queue_contract Q =
     ((\<forall>n d q. length (fst (pop_buffer Q n d q)) = n)
      \<and> (\<forall>a b d q. pop_buffer Q (a + b) d q =
            (let (w1, q1) = pop_buffer Q a d q; (w2, q2) = pop_buffer Q b d q1 in (w1 @ w2, q2)))
      \<and> (\<forall>n d q. is_empty Q q \<longrightarrow>
            fst (pop_buffer Q n d q) = replicate n 0 \<and> is_empty Q (snd (pop_buffer Q n d q))))"

text \<open>
  The result of a pull on a queued channel without what the queue holds at the end: the
  error, or the samples and the state of the channel with the queue replaced by \<open>c\<close>.
\<close>

definition except_queue ::
  "'q \<Rightarrow> error + (real list \<times> ('q, 'z) QueuedEpochOutput_scheme) \<Rightarrow>
     error + (real list \<times> ('q, 'z) QueuedEpochOutput_scheme)" where
  "except_queue c r = (case r of Inl e \<Rightarrow> Inl e | Inr (w, s) \<Rightarrow> Inr (w, s\<lparr>queue := c\<rparr>))"

subsection \<open>Notions for the proofs\<close>

text \<open>
  The following definitions are not code of the program; the proofs about
  \<^verbatim>\<open>get_samples\<close> are phrased with them. \<open>ahead b off\<close> is what the buffer holds
  from the offset \<open>off\<close> on. \<open>gen_step\<close> is one call of \<^verbatim>\<open>get_next_samples\<close>
  followed by the append to the buffer, \<open>silence\<close> the append of zeros before the
  activation offset, and \<open>fresh\<close> the second and third block of \<^verbatim>\<open>get_samples\<close>
  seen from the upper bound of the buffer, without the array. \<open>exact_gns\<close> and
  \<open>chunked_gns\<close> say of a \<^verbatim>\<open>get_next_samples\<close> that it returns as many samples as
  asked for and leaves buffer and activation offset alone, and that two calls in a row
  amount to one.
\<close>

definition ahead :: "signal_buffer \<Rightarrow> int \<Rightarrow> real list" where
  "ahead b off = drop (nat (off - get_samples_lb b)) (cached b)"

definition gen_step ::
  "(nat \<Rightarrow> ('q, 'z) BufferedOutput_scheme \<Rightarrow> error + (real list \<times> ('q, 'z) BufferedOutput_scheme)) \<Rightarrow>
   nat \<Rightarrow> ('q, 'z) BufferedOutput_scheme \<Rightarrow> error + (real list \<times> ('q, 'z) BufferedOutput_scheme)" where
  "gen_step gns r s =
     (case gns r s of
        Inl e \<Rightarrow> Inl e
      | Inr (w, s') \<Rightarrow> Inr (w, s'\<lparr>u_buffer := append_data w (u_buffer s')\<rparr>))"

definition silence :: "nat \<Rightarrow> ('q, 'z) BufferedOutput_scheme \<Rightarrow> ('q, 'z) BufferedOutput_scheme" where
  "silence k s = (if 0 < k then s\<lparr>u_buffer := append_data (replicate k 0) (u_buffer s)\<rparr> else s)"

definition fresh ::
  "(nat \<Rightarrow> ('q, 'z) BufferedOutput_scheme \<Rightarrow> error + (real list \<times> ('q, 'z) BufferedOutput_scheme)) \<Rightarrow>
   nat \<Rightarrow> ('q, 'z) BufferedOutput_scheme \<Rightarrow> error + (real list \<times> ('q, 'z) BufferedOutput_scheme)" where
  "fresh gns r s =
     (let k = min (nat (u_offset s - get_samples_ub (u_buffer s))) r;
          s1 = (if 0 < k then s\<lparr>u_buffer := append_data (replicate k 0) (u_buffer s)\<rparr> else s)
      in if k < r then
           (case gen_step gns (r - k) s1 of
              Inl e \<Rightarrow> Inl e
            | Inr (w, s2) \<Rightarrow> Inr (replicate k 0 @ w, s2))
         else Inr (replicate k 0, s1))"

definition exact_gns ::
  "(nat \<Rightarrow> ('q, 'z) BufferedOutput_scheme \<Rightarrow> error + (real list \<times> ('q, 'z) BufferedOutput_scheme)) \<Rightarrow> bool" where
  "exact_gns gns = (\<forall>n s w s'. gns n s = Inr (w, s') \<longrightarrow>
      length w = n \<and> u_buffer s' = u_buffer s \<and> u_offset s' = u_offset s)"

definition chunked_gns ::
  "(nat \<Rightarrow> ('q, 'z) BufferedOutput_scheme \<Rightarrow> error + (real list \<times> ('q, 'z) BufferedOutput_scheme)) \<Rightarrow> bool" where
  "chunked_gns gns = (\<forall>a b s. 0 < a \<longrightarrow> 0 < b \<longrightarrow> u_offset s \<le> get_samples_ub (u_buffer s) \<longrightarrow>
      gen_step gns (a + b) s =
        (case gen_step gns a s of
           Inl e \<Rightarrow> Inl e
         | Inr (w1, s1) \<Rightarrow>
             (case gen_step gns b s1 of
                Inl e \<Rightarrow> Inl e
              | Inr (w2, s2) \<Rightarrow> Inr (w1 @ w2, s2))))"

text \<open>
  A queued channel that has been deactivated does not touch its queue any more. \<open>park\<close>
  forgets the queue of such a channel, and \<open>parked_gns\<close> is \<^verbatim>\<open>get_next_samples\<close>
  of a queued channel followed by it.
\<close>

definition park :: "'q \<Rightarrow> ('q, 'z) QueuedEpochOutput_scheme \<Rightarrow> ('q, 'z) QueuedEpochOutput_scheme" where
  "park c s = (if active s then s else s\<lparr>queue := c\<rparr>)"

definition parked ::
  "'q \<Rightarrow> error + (real list \<times> ('q, 'z) QueuedEpochOutput_scheme) \<Rightarrow>
     error + (real list \<times> ('q, 'z) QueuedEpochOutput_scheme)" where
  "parked c r = (case r of Inl e \<Rightarrow> Inl e | Inr (w, s) \<Rightarrow> Inr (w, park c s))"

definition parked_gns ::
  "'q \<Rightarrow> 'q queue_methods \<Rightarrow> nat \<Rightarrow> ('q, 'z) QueuedEpochOutput_scheme \<Rightarrow>
     error + (real list \<times> ('q, 'z) QueuedEpochOutput_scheme)" where
  "parked_gns c Q n s = parked c (QueuedEpochOutput_get_next_samples Q n s)"

section \<open>Concrete objects\<close>

definition example_buffer :: signal_buffer where
  "example_buffer = \<lparr>capacity = 8, samples_ub = 5, cached = [1, 2, 3, 4, 5]\<rparr>"

definition example_epoch :: "(real list) BufferedOutput" where
  "example_epoch = \<lparr>filter_delay = 0, callbacks = [], u_buffer = example_buffer,
     u_offset = 0, active = True, source = Some [1, 2]\<rparr>"

definition example_queued :: "(real list) QueuedEpochOutput" where
  "example_queued = \<lparr>filter_delay = 0, callbacks = [], u_buffer = example_buffer,
     u_offset = 0, active = True, source = Some [1, 2, 3], queue = [1, 2, 3],
     auto_decrement = True, complete_cb = Some 5, complete = 0, paused = False,
     deferred_calls = [], hw_ao_updates = []\<rparr>"

definition example_evicted :: "(real list) BufferedOutput" where
  "example_evicted = \<lparr>filter_delay = 0, callbacks = [],
     u_buffer = \<lparr>capacity = 8, samples_ub = 6, cached = [1, 2, 3, 4]\<rparr>,
     u_offset = 0, active = False, source = None\<rparr>"


definition example_chunk :: "unit chunk" where
  "example_chunk = \<lparr>t0 = 1, chunk_samples = [1, 2], metadata = ()\<rparr>"

definition example_calibration :: sampled_calibration where
  "example_calibration = \<lparr>frequency = [1000, 2000], sensitivity = [10, 20], fixed_gain = 0\<rparr>"

section \<open>The contract of get_samples on the offset\<close>

lemma assign_slice_not_SystemError: "assign_slice out i j v \<noteq> Inl SystemError"
  by (simp add: assign_slice_def)

lemma get_range_samples_not_SystemError: "get_range_samples lo hi b \<noteq> Inl SystemError"
  by (simp add: get_range_samples_def)

lemma from_buffer_SystemError:
  "(from_buffer off samples out b = Inl SystemError) = (get_samples_ub b < off)"
proof (cases "get_samples_ub b < off")
  case True
  then show ?thesis by (simp add: from_buffer_def)
next
  case False
  have "from_buffer off samples out b \<noteq> Inl SystemError"
    using False
    by (auto simp: from_buffer_def Let_def assign_slice_not_SystemError
          get_range_samples_not_SystemError split: sum.splits)
  with False show ?thesis by simp
qed

lemma before_activation_not_SystemError: "before_activation st s \<noteq> Inl SystemError"
  by (auto simp: before_activation_def Let_def assign_slice_def split: prod.splits sum.splits)

lemma generate_not_SystemError:
  assumes "\<And>n t. gns n t \<noteq> Inl SystemError"
  shows "generate gns st s \<noteq> Inl SystemError"
  using assms
  by (auto simp: generate_def assign_slice_def split: prod.splits sum.splits)

lemma get_samples_SystemError:
  assumes "\<And>n t. gns n t \<noteq> Inl SystemError"
  shows "(get_samples gns off samples out s = Inl SystemError) = (get_samples_ub (u_buffer s) < off)"
proof (cases "from_buffer off samples out (u_buffer s)")
  case (Inl e)
  then show ?thesis
    using from_buffer_SystemError [of off samples out "u_buffer s"]
    by (auto simp: get_samples_def)
next
  case (Inr st)
  then have "\<not> get_samples_ub (u_buffer s) < off"
    using from_buffer_SystemError [of off samples out "u_buffer s"] by auto
  moreover have "get_samples gns off samples out s \<noteq> Inl SystemError"
    using Inr before_activation_not_SystemError [of st s] generate_not_SystemError [OF assms]
    by (auto simp: get_samples_def split: sum.splits prod.splits)
  ultimately show ?thesis by simp
qed

lemma EpochOutput_not_SystemError: "EpochOutput_get_next_samples M n t \<noteq> Inl SystemError"
  by (auto simp: EpochOutput_get_next_samples_def Let_def split: option.splits prod.splits)

lemma QueuedEpochOutput_not_SystemError:
  "QueuedEpochOutput_get_next_samples Q n t \<noteq> Inl SystemError"
  by (auto simp: QueuedEpochOutput_get_next_samples_def Let_def split: option.splits prod.splits)

lemma ContinuousOutput_not_SystemError:
  "ContinuousOutput_get_next_samples M n t \<noteq> Inl SystemError"
  by (auto simp: ContinuousOutput_get_next_samples_def Let_def split: option.splits prod.splits)

text \<open>
  Claim C2. For each of the three buffered channels, \<^verbatim>\<open>get_samples(offset, n)\<close> fails
  with the offset-mismatch SystemError (ContractViolation), returning no samples and no
  new state, exactly when \<open>offset\<close> lies strictly above the upper bound of the
  buffer; at or below that bound this error is never raised.
\<close>

theorem C2_contract_violation_iff_offset_above_ub:
  "(get_samples (EpochOutput_get_next_samples M) off n out s = Inl SystemError)
      = (get_samples_ub (u_buffer s) < off)
   \<and> (get_samples (QueuedEpochOutput_get_next_samples Q) off n out t = Inl SystemError)
      = (get_samples_ub (u_buffer t) < off)
   \<and> (get_samples (ContinuousOutput_get_next_samples M') off n out u = Inl SystemError)
      = (get_samples_ub (u_buffer u) < off)"
  using get_samples_SystemError [of "EpochOutput_get_next_samples M" off n out s,
          OF EpochOutput_not_SystemError]
        get_samples_SystemError [of "QueuedEpochOutput_get_next_samples Q" off n out t,
          OF QueuedEpochOutput_not_SystemError]
        get_samples_SystemError [of "ContinuousOutput_get_next_samples M'" off n out u,
          OF ContinuousOutput_not_SystemError]
  by simp

section \<open>Deactivation\<close>

lemma invalidate_samples_ub: "invalidate_samples (get_samples_ub b) b = b"
  by (simp add: invalidate_samples_def get_samples_ub_def get_samples_lb_def)

lemma deactivate_at_ub:
  "deactivate (get_samples_ub (u_buffer s)) s = s\<lparr>active := False, source := None\<rparr>"
  by (simp add: deactivate_def invalidate_samples_ub)


section \<open>The completion callback of a queued epoch output\<close>

lemma Queued_inactive_run:
  assumes "\<not> active s"
  shows "next_samples_run (QueuedEpochOutput_get_next_samples Q) ns s
         = Inr (map (\<lambda>m. replicate m 0) ns, s)"
  using assms
  by (induction ns) (simp_all add: QueuedEpochOutput_get_next_samples_def)

lemma Queued_step_cb:
  assumes "complete_cb s = Some cb" and "active s"
  shows "QueuedEpochOutput_get_next_samples Q n s
         = (let (w, q') = pop_buffer Q n (auto_decrement s) (queue s)
            in Inr (w, if is_empty Q q'
                       then s\<lparr>queue := q', complete := complete s + 1,
                              deferred_calls := deferred_calls s @ [cb], active := False\<rparr>
                       else s\<lparr>queue := q'\<rparr>))"
  using assms by (simp add: QueuedEpochOutput_get_next_samples_def Let_def split: prod.splits)

lemma Queued_step_no_cb:
  assumes "complete_cb s = None" and "active s"
  shows "QueuedEpochOutput_get_next_samples Q n s
         = Inr (fst (pop_buffer Q n (auto_decrement s) (queue s)),
                s\<lparr>queue := snd (pop_buffer Q n (auto_decrement s) (queue s))\<rparr>)"
  using assms by (simp add: QueuedEpochOutput_get_next_samples_def Let_def split: prod.splits)

text \<open>
  Claim C4. Take an active queued epoch output with a registered completion callback
  \<open>cb\<close> and any run of pulls. Up to the first pop that leaves the queue empty the
  pulls return what the queue returns and nothing else changes (no callback on a partial
  drain). At that pop \<^verbatim>\<open>active\<close> is cleared, the \<^verbatim>\<open>complete\<close> event fires once and
  \<open>cb\<close> is handed once to \<^verbatim>\<open>deferred_call\<close>, that is, appended to the calls waiting
  for the event loop and not run inside the pull. All later pulls of the run return zeros
  and schedule nothing more.
\<close>

theorem C4_callback_deferred_once_per_drain:
  assumes "complete_cb s = Some cb" and "active s"
  shows "next_samples_run (QueuedEpochOutput_get_next_samples Q) ns s
         = Inr (fst (pop_run_until_empty Q (auto_decrement s) ns (queue s)),
                if drains Q (auto_decrement s) ns (queue s)
                then s\<lparr>queue := snd (pop_run_until_empty Q (auto_decrement s) ns (queue s)),
                       complete := complete s + 1,
                       deferred_calls := deferred_calls s @ [cb],
                       active := False\<rparr>
                else s\<lparr>queue := snd (pop_run_until_empty Q (auto_decrement s) ns (queue s))\<rparr>)"
  using assms
proof (induction ns arbitrary: s)
  case Nil
  then show ?case by simp
next
  case (Cons n ns)
  obtain w q' where pop: "pop_buffer Q n (auto_decrement s) (queue s) = (w, q')"
    by (cases "pop_buffer Q n (auto_decrement s) (queue s)")
  show ?case
  proof (cases "is_empty Q q'")
    case True
    let ?s = "s\<lparr>queue := q', complete := complete s + 1,
                 deferred_calls := deferred_calls s @ [cb], active := False\<rparr>"
    have "\<not> active ?s" by simp
    from Queued_inactive_run [OF this, of Q ns] Queued_step_cb [OF Cons.prems, of Q n] pop True
    show ?thesis by (simp add: Let_def)
  next
    case False
    let ?s = "s\<lparr>queue := q'\<rparr>"
    have "complete_cb ?s = Some cb" "active ?s" using Cons.prems by simp_all
    from Cons.IH [OF this] Queued_step_cb [OF Cons.prems, of Q n] pop False
    show ?thesis by (simp add: Let_def split: prod.splits)
  qed
qed

theorem C4_callback_witness:
  "complete_cb example_queued = Some 5 \<and> active example_queued
   \<and> next_samples_run (QueuedEpochOutput_get_next_samples SampleQueue) [2, 2, 1] example_queued
       = Inr ([[1, 2], [3, 0], [0]],
              example_queued\<lparr>queue := [], complete := 1, deferred_calls := [5],
                             active := False\<rparr>)
   \<and> next_samples_run (QueuedEpochOutput_get_next_samples SampleQueue) [2] example_queued
       = Inr ([[1, 2]], example_queued\<lparr>queue := [3]\<rparr>)"
  using C4_callback_deferred_once_per_drain [of example_queued 5 SampleQueue "[2, 2, 1]"]
        C4_callback_deferred_once_per_drain [of example_queued 5 SampleQueue "[2]"]
  by (simp add: example_queued_def SampleQueue_def)

text \<open>
  Claim C10. With no completion callback registered, an active queued epoch output
  stays active whatever the queue holds: every pull of a run returns what
  \<^verbatim>\<open>pop_buffer\<close> returns, also when the queue is empty, and the state changes in the
  queue only, so \<^verbatim>\<open>active\<close> stays true, the \<^verbatim>\<open>complete\<close> event does not fire and
  nothing is scheduled.
\<close>

theorem C10_no_callback_keeps_drawing_from_queue:
  assumes "complete_cb s = None" and "active s"
  shows "next_samples_run (QueuedEpochOutput_get_next_samples Q) ns s
         = Inr (fst (pop_run Q (auto_decrement s) ns (queue s)),
                s\<lparr>queue := snd (pop_run Q (auto_decrement s) ns (queue s))\<rparr>)"
  using assms
proof (induction ns arbitrary: s)
  case Nil
  then show ?case by simp
next
  case (Cons n ns)
  let ?s = "s\<lparr>queue := snd (pop_buffer Q n (auto_decrement s) (queue s))\<rparr>"
  have "complete_cb ?s = None" "active ?s" using Cons.prems by simp_all
  from Cons.IH [OF this] Queued_step_no_cb [OF Cons.prems, of Q n]
  show ?case by (simp add: Let_def split: prod.splits)
qed

theorem C10_no_callback_witness:
  "complete_cb (example_queued\<lparr>complete_cb := None\<rparr>) = None
   \<and> active (example_queued\<lparr>complete_cb := None\<rparr>)
   \<and> is_empty SampleQueue (snd (pop_buffer SampleQueue 3 True [1, 2, 3]))
   \<and> next_samples_run (QueuedEpochOutput_get_next_samples SampleQueue) [3, 2]
         (example_queued\<lparr>complete_cb := None\<rparr>)
       = Inr ([[1, 2, 3], [0, 0]], example_queued\<lparr>complete_cb := None, queue := []\<rparr>)"
  using C10_no_callback_keeps_drawing_from_queue
          [of "example_queued\<lparr>complete_cb := None\<rparr>" SampleQueue "[3, 2]"]
  by (simp add: example_queued_def SampleQueue_def numeral_eq_Suc)

section \<open>Observers\<close>

lemma callbacks_fold_connect: "callbacks (fold connect cbs s) = callbacks s @ cbs"
  by (induction cbs arbitrary: s) (simp_all add: connect_def)

text \<open>
  Claim C5. \<^verbatim>\<open>notify\<close> calls every registered callback, in the order of the list
  \<^verbatim>\<open>callbacks\<close>, with one and the same new object; that object is the chunk it was
  given with \<open>t0\<close> increased by the filter delay and nothing else changed. The list
  \<^verbatim>\<open>callbacks\<close> is in the order of registration: \<^verbatim>\<open>connect\<close> appends.
\<close>

theorem C5_notify_delivers_shifted_chunk_in_order:
  "snd (notify data s store) = map (\<lambda>cb. (cb, length store)) (callbacks s)
   \<and> fst (notify data s store) ! length store
       = (store ! data)\<lparr>t0 := t0 (store ! data) + filter_delay s\<rparr>
   \<and> callbacks (fold connect cbs s) = callbacks s @ cbs"
  by (simp add: notify_def Let_def callbacks_fold_connect)

text \<open>
  Claim C9. \<^verbatim>\<open>notify\<close> leaves the chunk of the caller as it was: the object at the
  address \<open>data\<close>, and every other object the store held, is the same after the call;
  the shifted \<open>t0\<close> is written to the copy.
\<close>

theorem C9_notify_leaves_chunk_of_caller:
  assumes "data < length store"
  shows "fst (notify data s store) ! data = store ! data
       \<and> take (length store) (fst (notify data s store)) = store"
  using assms by (simp add: notify_def Let_def nth_append)

theorem C9_notify_witness:
  "(0::nat) < length [example_chunk]
   \<and> fst (notify 0 \<lparr>filter_delay = 1 / 2, callbacks = [7]\<rparr> [example_chunk]) ! 0 = example_chunk
   \<and> fst (notify 0 \<lparr>filter_delay = 1 / 2, callbacks = [7]\<rparr> [example_chunk])
       = [example_chunk, example_chunk\<lparr>t0 := 3 / 2\<rparr>]"
  using C9_notify_leaves_chunk_of_caller
          [of 0 "[example_chunk]" "\<lparr>filter_delay = 1 / 2, callbacks = [7]\<rparr>"]
  by (simp add: notify_def example_chunk_def)

section \<open>The offset at which pause and resume invalidate the buffer\<close>

lemma py_int_truncates:
  "\<bar>real_of_int (py_int x)\<bar> \<le> \<bar>x\<bar> \<and> \<bar>x\<bar> < \<bar>real_of_int (py_int x)\<bar> + 1"
  unfolding py_int_def by (cases "0 \<le> x") (simp_all, linarith+)

text \<open>
  Claim C6, as amended. \<^verbatim>\<open>pause\<close> and \<^verbatim>\<open>resume\<close> hand the queue the time
  \<open>t = ts + 1\<close>, one second after the current time of the engine, and invalidate the
  buffer (and rewrite the hardware buffer) from the offset \<open>int((t + 1) * fs)\<close>: a
  further second is added, and the float product is truncated toward zero, so the offset
  is the integer part of the product. Sum and product are those of floats; where none of
  them is rounded the offset is the integer part of \<open>(ts + 2) * fs\<close>. It is not
  \<open>round(t * fs)\<close>.
\<close>

theorem C6_invalidation_offset_truncates_one_second_later:
  "queue (pause Q ts fs s) = queue_pause Q (fl_add ts 1) (queue s)
   \<and> u_buffer (pause Q ts fs s)
       = invalidate_samples (py_int (fl_mul (fl_add (fl_add ts 1) 1) fs)) (u_buffer s)
   \<and> hw_ao_updates (pause Q ts fs s)
       = hw_ao_updates s @ [py_int (fl_mul (fl_add (fl_add ts 1) 1) fs)]
   \<and> queue (resume Q ts fs s) = queue_resume Q (fl_add ts 1) (queue s)
   \<and> u_buffer (resume Q ts fs s)
       = invalidate_samples (py_int (fl_mul (fl_add (fl_add ts 1) 1) fs)) (u_buffer s)
   \<and> hw_ao_updates (resume Q ts fs s)
       = hw_ao_updates s @ [py_int (fl_mul (fl_add (fl_add ts 1) 1) fs)]
   \<and> \<bar>real_of_int (py_int (fl_mul (fl_add (fl_add ts 1) 1) fs))\<bar>
       \<le> \<bar>fl_mul (fl_add (fl_add ts 1) 1) fs\<bar>
   \<and> \<bar>fl_mul (fl_add (fl_add ts 1) 1) fs\<bar>
       < \<bar>real_of_int (py_int (fl_mul (fl_add (fl_add ts 1) 1) fs))\<bar> + 1
   \<and> (binary64 (ts + 1) = ts + 1 \<longrightarrow> binary64 (ts + 1 + 1) = ts + 1 + 1
        \<longrightarrow> binary64 ((ts + 1 + 1) * fs) = (ts + 1 + 1) * fs
        \<longrightarrow> py_int (fl_mul (fl_add (fl_add ts 1) 1) fs) = py_int ((ts + 1 + 1) * fs))"
proof -
  have "queue (pause Q ts fs s) = queue_pause Q (fl_add ts 1) (queue s)"
    and "u_buffer (pause Q ts fs s)
       = invalidate_samples (py_int (fl_mul (fl_add (fl_add ts 1) 1) fs)) (u_buffer s)"
    and "hw_ao_updates (pause Q ts fs s)
       = hw_ao_updates s @ [py_int (fl_mul (fl_add (fl_add ts 1) 1) fs)]"
    by (simp_all add: pause_def Let_def)
  moreover have "queue (resume Q ts fs s) = queue_resume Q (fl_add ts 1) (queue s)"
    and "u_buffer (resume Q ts fs s)
       = invalidate_samples (py_int (fl_mul (fl_add (fl_add ts 1) 1) fs)) (u_buffer s)"
    and "hw_ao_updates (resume Q ts fs s)
       = hw_ao_updates s @ [py_int (fl_mul (fl_add (fl_add ts 1) 1) fs)]"
    by (simp_all add: resume_def Let_def)
  moreover have "binary64 (ts + 1) = ts + 1 \<longrightarrow> binary64 (ts + 1 + 1) = ts + 1 + 1
        \<longrightarrow> binary64 ((ts + 1 + 1) * fs) = (ts + 1 + 1) * fs
        \<longrightarrow> py_int (fl_mul (fl_add (fl_add ts 1) 1) fs) = py_int ((ts + 1 + 1) * fs)"
    by (simp add: fl_add_def fl_mul_def)
  ultimately show ?thesis
    using py_int_truncates [of "fl_mul (fl_add (fl_add ts 1) 1) fs"] by blast
qed

text \<open>
  At engine time 0.5 and 2.5 samples per second no float operation rounds, and the
  offset is the integer part of 2.5 * 2.5 = 6.25.
\<close>

theorem C6_invalidation_offset_witness:
  "binary64 (1 / 2 + 1) = 1 / 2 + 1 \<and> binary64 (1 / 2 + 1 + 1) = 1 / 2 + 1 + 1
   \<and> binary64 ((1 / 2 + 1 + 1) * (5 / 2)) = (1 / 2 + 1 + 1) * (5 / 2)
   \<and> py_int (fl_mul (fl_add (fl_add (1 / 2) 1) 1) (5 / 2)) = 6
   \<and> queue (pause SampleQueue (1 / 2) (5 / 2) example_queued)
       = queue_pause SampleQueue (3 / 2) (queue example_queued)
   \<and> hw_ao_updates (pause SampleQueue (1 / 2) (5 / 2) example_queued) = [6]"
proof -
  have a: "binary64 (1 / 2 + 1) = 1 / 2 + 1" by code_simp
  have b: "binary64 (1 / 2 + 1 + 1) = 1 / 2 + 1 + 1" by code_simp
  have c: "binary64 ((1 / 2 + 1 + 1) * (5 / 2)) = (1 / 2 + 1 + 1) * (5 / 2)" by code_simp
  have d: "py_int ((1 / 2 + 1 + 1) * (5 / 2)) = 6" by (simp add: py_int_def)
  have e: "fl_add (1 / 2) 1 = 3 / 2" by code_simp
  have h: "hw_ao_updates example_queued = []" by (simp add: example_queued_def)
  note t = C6_invalidation_offset_truncates_one_second_later
             [of SampleQueue "1 / 2" "5 / 2" example_queued]
  from t a b c have "py_int (fl_mul (fl_add (fl_add (1 / 2) 1) 1) (5 / 2))
      = py_int ((1 / 2 + 1 + 1) * (5 / 2))"
    by blast
  then have o: "py_int (fl_mul (fl_add (fl_add (1 / 2) 1) 1) (5 / 2)) = 6"
    unfolding d .
  note q = t [THEN conjunct1, unfolded e]
  note u = t [THEN conjunct2, THEN conjunct2, THEN conjunct1, unfolded o h append_Nil]
  show ?thesis by (intro conjI) (rule a b c o q u)+
qed

text \<open>
  The claim as stated fails. At engine time 0 and 1.75 samples per second (no float
  operation rounds) the time handed to the queue is 1 and \<open>round(1 * 1.75)\<close> is 2, but
  the buffer is invalidated from offset 3, the integer part of 2 * 1.75 = 3.5, which
  \<^verbatim>\<open>round\<close> would take to 4. At engine time 0.01 and 100 samples per second the float
  product is just below 201, the offset is 200, and \<open>round(t * fs)\<close> is 101; over the
  reals the product would be 201.
\<close>

theorem C6_invalidation_offset_counterexample:
  "queue (pause SampleQueue 0 (7 / 4) example_queued)
       = queue_pause SampleQueue 1 (queue example_queued)
   \<and> u_buffer (pause SampleQueue 0 (7 / 4) example_queued) = invalidate_samples 3 example_buffer
   \<and> hw_ao_updates (pause SampleQueue 0 (7 / 4) example_queued) = [3]
   \<and> hw_ao_updates (resume SampleQueue 0 (7 / 4) example_queued) = [3]
   \<and> py_round (1 * (7 / 4)) = 2
   \<and> py_round (fl_mul (fl_add (fl_add 0 1) 1) (7 / 4)) = 4
   \<and> invalidate_samples 3 example_buffer \<noteq> invalidate_samples (py_round (1 * (7 / 4))) example_buffer
   \<and> hw_ao_updates (pause SampleQueue (binary64 (1 / 100)) 100 example_queued) = [200]
   \<and> py_round (fl_mul (fl_add (binary64 (1 / 100)) 1) 100) = 101
   \<and> py_int ((1 / 100 + 1 + 1) * 100) = 201"
proof -
  have a: "fl_add 0 1 = 1" by code_simp
  have b: "py_int (fl_mul (fl_add 1 1) (7 / 4)) = 3" by code_simp
  have c: "py_round (fl_mul (fl_add 1 1) (7 / 4)) = 4" by code_simp
  have d: "py_int (fl_mul (fl_add (fl_add (binary64 (1 / 100)) 1) 1) 100) = 200" by code_simp
  have e: "py_round (fl_mul (fl_add (binary64 (1 / 100)) 1) 100) = 101" by code_simp
  have f: "py_round (1 * (7 / 4)) = 2" by (simp add: py_round_def Let_def)
  have g: "py_int 201 = 201" by (simp add: py_int_def)
  have i: "invalidate_samples 3 example_buffer \<noteq> invalidate_samples 2 example_buffer"
    by (simp add: invalidate_samples_def example_buffer_def get_samples_ub_def
          get_samples_lb_def)
  show ?thesis
    unfolding f
    by (simp add: pause_def resume_def Let_def a b c d e g i example_queued_def SampleQueue_def)
qed

section \<open>Calibration lookup\<close>

lemma first_index_None: "(first_index xs f = None) = (f \<notin> set xs)"
  by (induction xs) auto

lemma first_index_less: "first_index xs f = Some i \<Longrightarrow> i < length xs"
  by (induction xs arbitrary: i) (auto split: if_splits)

lemma PointCalibration__get_sens_error:
  "(PointCalibration__get_sens c f = Inl CalibrationError) = (f \<notin> set (frequency c))"
  using first_index_None [of "frequency c" f]
  by (auto simp: PointCalibration__get_sens_def split: option.splits)

lemma get_sens_each_error:
  "length (sensitivity c) = length (frequency c) \<Longrightarrow>
   (get_sens_each c fs = Inl CalibrationError) = (\<not> set fs \<subseteq> set (frequency c))"
proof (induction fs)
  case Nil
  then show ?case by simp
next
  case (Cons f fs)
  show ?case
  proof (cases "PointCalibration__get_sens c f")
    case (Inl e)
    have "e = CalibrationError"
      using Inl Cons.prems first_index_less [of "frequency c" f]
      by (auto simp: PointCalibration__get_sens_def split: option.splits if_splits)
    with Inl PointCalibration__get_sens_error [of c f] show ?thesis by simp
  next
    case (Inr v)
    with PointCalibration__get_sens_error [of c f] have "f \<in> set (frequency c)" by auto
    with Inr Cons show ?thesis by (auto split: sum.splits)
  qed
qed

lemma interp_linear_below: "\<forall>p \<in> set ps. x < fst p \<Longrightarrow> interp_linear ps x = NaN"
  by (induction ps x rule: interp_linear.induct) auto

lemma interp_linear_above: "\<forall>p \<in> set ps. fst p < x \<Longrightarrow> interp_linear ps x = NaN"
  by (induction ps x rule: interp_linear.induct) auto

lemma interp1d_outside:
  assumes "(\<forall>x \<in> set xs. f < x) \<or> (\<forall>x \<in> set xs. x < f)"
  shows "interp1d xs ys f = NaN"
proof -
  have sub: "fst ` set (sort_key fst (zip xs ys)) \<subseteq> set xs"
    by (auto dest: set_zip_leftD)
  from assms show ?thesis
  proof
    assume "\<forall>x \<in> set xs. f < x"
    with sub have "\<forall>p \<in> set (sort_key fst (zip xs ys)). f < fst p" by blast
    then show ?thesis unfolding interp1d_def by (rule interp_linear_below)
  next
    assume "\<forall>x \<in> set xs. x < f"
    with sub have "\<forall>p \<in> set (sort_key fst (zip xs ys)). fst p < f" by blast
    then show ?thesis unfolding interp1d_def by (rule interp_linear_above)
  qed
qed

text \<open>
  Claim C7, as amended. \<^verbatim>\<open>PointCalibration.get_sens\<close> raises CalibrationError
  exactly for a frequency that is not among the calibrated ones (for an iterable, when
  one of its frequencies is not). \<^verbatim>\<open>InterpCalibration.get_sens\<close> raises for no
  frequency; outside the calibrated range it neither extrapolates nor clamps but
  returns NaN, the fill value of the interpolator.
\<close>

theorem C7_point_raises_interp_returns_nan_outside:
  "(PointCalibration_get_sens c (Scalar f) = Inl CalibrationError) = (f \<notin> set (frequency c))
   \<and> (length (sensitivity c) = length (frequency c) \<longrightarrow>
        (PointCalibration_get_sens c (Array fs) = Inl CalibrationError)
          = (\<not> set fs \<subseteq> set (frequency c)))
   \<and> (\<exists>v. InterpCalibration_get_sens c' a = Inr v)
   \<and> ((\<forall>x \<in> set (frequency c'). g < x) \<or> (\<forall>x \<in> set (frequency c'). x < g) \<longrightarrow>
        InterpCalibration_get_sens c' (Scalar g) = Inr (Scalar NaN))"
proof (intro conjI impI)
  show "(PointCalibration_get_sens c (Scalar f) = Inl CalibrationError) = (f \<notin> set (frequency c))"
    using PointCalibration__get_sens_error [of c f] by (auto split: sum.splits)
next
  assume "length (sensitivity c) = length (frequency c)"
  from get_sens_each_error [OF this, of fs]
  show "(PointCalibration_get_sens c (Array fs) = Inl CalibrationError)
          = (\<not> set fs \<subseteq> set (frequency c))"
    by (auto split: sum.splits)
next
  show "\<exists>v. InterpCalibration_get_sens c' a = Inr v" by (cases a) simp_all
next
  assume "(\<forall>x \<in> set (frequency c'). g < x) \<or> (\<forall>x \<in> set (frequency c'). x < g)"
  from interp1d_outside [OF this]
  show "InterpCalibration_get_sens c' (Scalar g) = Inr (Scalar NaN)"
    by (simp add: npfloat_minus_def)
qed

theorem C7_calibration_witness:
  "length (sensitivity example_calibration) = length (frequency example_calibration)
   \<and> PointCalibration_get_sens example_calibration (Scalar 1500) = Inl CalibrationError
   \<and> PointCalibration_get_sens example_calibration (Array [2000, 1000]) = Inr (Array [20, 10])
   \<and> PointCalibration_get_sens example_calibration (Array [2000, 1500]) = Inl CalibrationError
   \<and> InterpCalibration_get_sens example_calibration (Scalar 1500) = Inr (Scalar (Num 15))
   \<and> (500::real) < 1000 \<and> (500::real) < 2000
   \<and> InterpCalibration_get_sens example_calibration (Scalar 500) = Inr (Scalar NaN)"
  using C7_point_raises_interp_returns_nan_outside
          [of example_calibration 1500 "[2000, 1500]" example_calibration "Scalar 1500" 500]
  by (simp add: example_calibration_def interp1d_def npfloat_minus_def
        PointCalibration__get_sens_def)

text \<open>
  The claim as stated fails: with 10 dB calibrated at 1000 Hz and 20 dB at 2000 Hz, the
  interpolated calibration returns NaN at 3000 Hz, neither the clamped 20 dB nor the
  extrapolated 30 dB.
\<close>

theorem C7_interp_outside_counterexample:
  "InterpCalibration_get_sens example_calibration (Scalar 3000) = Inr (Scalar NaN)
   \<and> InterpCalibration_get_sens example_calibration (Scalar 3000) \<noteq> Inr (Scalar (Num 20))
   \<and> InterpCalibration_get_sens example_calibration (Scalar 3000) \<noteq> Inr (Scalar (Num 30))"
  by (simp add: example_calibration_def interp1d_def npfloat_minus_def)

section \<open>Pulling in chunks\<close>

lemma length_ahead:
  "get_samples_lb b \<le> off \<Longrightarrow> off \<le> get_samples_ub b \<Longrightarrow>
   length (ahead b off) = nat (get_samples_ub b - off)"
  by (simp add: ahead_def get_samples_lb_def get_samples_ub_def)

lemma from_buffer_valid:
  assumes "get_samples_lb b \<le> off" and "off \<le> get_samples_ub b" and "length out = n"
  shows "from_buffer off n out b =
     (if n \<le> nat (get_samples_ub b - off) then Inr (take n (ahead b off), 0, off + int n)
      else Inr (ahead b off @ drop (nat (get_samples_ub b - off)) out,
                n - nat (get_samples_ub b - off), get_samples_ub b))"
proof -
  let ?d = "nat (get_samples_ub b - off)"
  have len: "length (ahead b off) = ?d" using assms(1,2) by (rule length_ahead)
  show ?thesis
  proof (cases "off = get_samples_ub b")
    case True
    with len have "ahead b off = []" by simp
    with True assms(3) show ?thesis by (auto simp: from_buffer_def)
  next
    case False
    with assms(2) have lt: "off < get_samples_ub b" by simp
    show ?thesis
    proof (cases "n \<le> ?d")
      case True
      then have le: "off + int n \<le> get_samples_ub b" using lt by linarith
      have "get_range_samples off (off + int n) b = Inr (take n (ahead b off))"
        using assms(1) le by (simp add: get_range_samples_def ahead_def)
      moreover have "assign_slice out 0 (length out) (take n (ahead b off)) = Inr (take n (ahead b off))"
        using len True assms(3) by (simp add: assign_slice_def)
      ultimately show ?thesis using lt le assms(1) True by (simp add: from_buffer_def)
    next
      case F2: False
      then have gt: "get_samples_ub b < off + int n" by linarith
      have "take ?d (ahead b off) = ahead b off" using len by simp
      then have r: "get_range_samples off (get_samples_ub b) b = Inr (ahead b off)"
        using assms(1,2) by (simp add: get_range_samples_def ahead_def)
      have "min ?d (length out) = ?d" using F2 assms(3) by simp
      then have "assign_slice out 0 (min (length (ahead b off)) (length out)) (ahead b off)
                 = Inr (ahead b off @ drop ?d out)"
        using len by (simp add: assign_slice_def)
      with r show ?thesis using lt gt assms(1) F2 len by (simp add: from_buffer_def Let_def)
    qed
  qed
qed

lemma before_activation_valid:
  assumes "length out1 = n" and "0 < r" and "r \<le> n"
    and "k = min (nat (u_offset s - pos)) r"
  shows "before_activation (out1, r, pos) s
         = Inr ((take (n - r) out1 @ replicate k 0 @ drop (n - r + k) out1, r - k, pos + int k),
                (if 0 < k then s\<lparr>u_buffer := append_data (replicate k 0) (u_buffer s)\<rparr> else s))"
proof -
  have ba: "before_activation (out1, r, pos) s =
     (if 0 < r \<and> pos < u_offset s then
        (case (if r = k then assign_slice out1 (length out1 - r) (length out1) (replicate k 0)
               else assign_slice out1 (length out1 - r) (length out1 - (r - k)) (replicate k 0)) of
           Inl e \<Rightarrow> Inl e
         | Inr out' \<Rightarrow> Inr ((out', r - k, pos + int k),
                            s\<lparr>u_buffer := append_data (replicate k 0) (u_buffer s)\<rparr>))
      else Inr ((out1, r, pos), s))"
    unfolding before_activation_def Let_def prod.case assms(4) ..
  have kle: "k \<le> r" using assms(4) by simp
  show ?thesis
  proof (cases "pos < u_offset s")
    case True
    then have kpos: "0 < k" using assms(2,4) by simp
    show ?thesis
    proof (cases "r = k")
      case True
      have "assign_slice out1 (n - r) n (replicate k 0)
            = Inr (take (n - r) out1 @ replicate k 0 @ drop (n - r + k) out1)"
        using True assms(1,3) by (simp add: assign_slice_def)
      then show ?thesis unfolding ba using \<open>pos < u_offset s\<close> assms(1,2) True kpos
        by simp
    next
      case False
      then have lt: "k < r" using kle by linarith
      have "n - r + k = n - (r - k)" using lt assms(3) by linarith
      then have "assign_slice out1 (n - r) (n - (r - k)) (replicate k 0)
                 = Inr (take (n - r) out1 @ replicate k 0 @ drop (n - r + k) out1)"
        using lt assms(1,3) by (simp add: assign_slice_def)
      then show ?thesis unfolding ba using \<open>pos < u_offset s\<close> assms(1,2) False kpos
        by simp
    qed
  next
    case False
    then have k0: "k = 0" using assms(4) by simp
    have "take (n - r) out1 @ drop (n - r) out1 = out1" by simp
    with k0 False show ?thesis unfolding ba by simp
  qed
qed

lemma tail_blocks:
  assumes ex: "exact_gns gns" and "length out1 = n" and "0 < r" and "r \<le> n"
    and "pos = get_samples_ub (u_buffer s)"
  shows "(case before_activation (out1, r, pos) s of
            Inl e \<Rightarrow> Inl e
          | Inr (st', s') \<Rightarrow> generate gns st' s')
         = (case fresh gns r s of
              Inl e \<Rightarrow> Inl e
            | Inr (w, s') \<Rightarrow> Inr (take (n - r) out1 @ w, s'))"
proof -
  define k where "k = min (nat (u_offset s - pos)) r"
  define s1 where "s1 = (if 0 < k then s\<lparr>u_buffer := append_data (replicate k 0) (u_buffer s)\<rparr> else s)"
  define out2 where "out2 = take (n - r) out1 @ replicate k 0 @ drop (n - r + k) out1"
  have kle: "k \<le> r" by (simp add: k_def)
  have ba: "before_activation (out1, r, pos) s = Inr ((out2, r - k, pos + int k), s1)"
    unfolding out2_def s1_def by (rule before_activation_valid [OF assms(2,3,4) k_def])
  have fr: "fresh gns r s =
     (if k < r then
           (case gen_step gns (r - k) s1 of
              Inl e \<Rightarrow> Inl e
            | Inr (w, s2) \<Rightarrow> Inr (replicate k 0 @ w, s2))
         else Inr (replicate k 0, s1))"
    unfolding fresh_def Let_def k_def s1_def assms(5) ..
  have lo: "length out2 = n" using kle assms(2,4) by (simp add: out2_def)
  show ?thesis
  proof (cases "k < r")
    case True
    show ?thesis
    proof (cases "gns (r - k) s1")
      case (Inl e)
      with True ba fr show ?thesis by (simp add: generate_def gen_step_def)
    next
      case (Inr p)
      obtain w s2 where p: "p = (w, s2)" by (cases p)
      with Inr ex have lw: "length w = r - k" unfolding exact_gns_def by blast
      have "assign_slice out2 (length out2 - (r - k)) (length out2) w
                 = Inr (take (n - r) out1 @ replicate k 0 @ w)"
        using lw True assms(2,4) lo by (simp add: assign_slice_def out2_def)
      with True ba fr Inr p show ?thesis
        by (simp add: generate_def gen_step_def)
    qed
  next
    case False
    then have "k = r" using kle by simp
    with ba fr assms(2,4) show ?thesis
      by (simp add: generate_def out2_def)
  qed
qed

lemma get_samples_valid:
  assumes "exact_gns gns" and "get_samples_lb (u_buffer s) \<le> off"
    and "off \<le> get_samples_ub (u_buffer s)" and "length out = n"
  shows "get_samples gns off n out s =
     (if n \<le> nat (get_samples_ub (u_buffer s) - off)
      then Inr (take n (ahead (u_buffer s) off), s)
      else (case fresh gns (n - nat (get_samples_ub (u_buffer s) - off)) s of
              Inl e \<Rightarrow> Inl e
            | Inr (w, s') \<Rightarrow> Inr (ahead (u_buffer s) off @ w, s')))"
proof (cases "n \<le> nat (get_samples_ub (u_buffer s) - off)")
  case True
  with from_buffer_valid [OF assms(2,3,4)] show ?thesis
    by (simp add: get_samples_def before_activation_def generate_def)
next
  case False
  define d where "d = nat (get_samples_ub (u_buffer s) - off)"
  define out1 where "out1 = ahead (u_buffer s) off @ drop d out"
  have len: "length (ahead (u_buffer s) off) = d"
    unfolding d_def using assms(2,3) by (rule length_ahead)
  have dn: "d < n" using False by (simp add: d_def)
  have l1: "length out1 = n" using len dn assms(4) by (simp add: out1_def)
  have tk: "take (n - (n - d)) out1 = ahead (u_buffer s) off" using len dn by (simp add: out1_def)
  have fb: "from_buffer off n out (u_buffer s) = Inr (out1, n - d, get_samples_ub (u_buffer s))"
    using from_buffer_valid [OF assms(2,3,4)] False by (simp add: d_def out1_def)
  have "0 < n - d" "n - d \<le> n" using dn by simp_all
  from tail_blocks [OF assms(1) l1 this refl, of s]
  have "(case before_activation (out1, n - d, get_samples_ub (u_buffer s)) s of
            Inl e \<Rightarrow> Inl e
          | Inr (st', s') \<Rightarrow> generate gns st' s')
         = (case fresh gns (n - d) s of
              Inl e \<Rightarrow> Inl e
            | Inr (w, s') \<Rightarrow> Inr (ahead (u_buffer s) off @ w, s'))"
    unfolding tk .
  with fb False show ?thesis by (simp add: get_samples_def d_def)
qed

lemma keep_last_append:
  "drop (length (drop (length A - C) A @ ys) - C) (drop (length A - C) A @ ys)
   = drop (length (A @ ys) - C) (A @ ys)"
proof (cases "length A \<le> C")
  case True
  then show ?thesis by simp
next
  case False
  have a: "drop (length A - C) A @ ys = drop (length A - C) (A @ ys)" by simp
  have b: "length (drop (length A - C) (A @ ys)) - C = length ys" using False by simp
  have c: "length ys + (length A - C) = length (A @ ys) - C" using False by simp
  have "drop (length ys) (drop (length A - C) (A @ ys)) = drop (length (A @ ys) - C) (A @ ys)"
    unfolding drop_drop c ..
  then show ?thesis unfolding a b .
qed

lemma append_data_append: "append_data ys (append_data xs b) = append_data (xs @ ys) b"
  using keep_last_append [of "cached b @ xs" "capacity b" ys]
  by (simp add: append_data_def Let_def)

lemma get_samples_ub_append_data:
  "get_samples_ub (append_data xs b) = get_samples_ub b + int (length xs)"
  by (simp add: append_data_def get_samples_ub_def Let_def)

lemma get_samples_lb_le_ub: "get_samples_lb b \<le> get_samples_ub b"
  by (simp add: get_samples_lb_def get_samples_ub_def)

lemma silence_props:
  "get_samples_ub (u_buffer (silence k s)) = get_samples_ub (u_buffer s) + int k"
  "u_offset (silence k s) = u_offset s"
  by (simp_all add: silence_def get_samples_ub_append_data)

lemma silence_silence: "silence b (silence a s) = silence (a + b) s"
  by (simp add: silence_def append_data_append replicate_add)

lemma gen_step_props:
  assumes "exact_gns gns" and "gen_step gns r s = Inr (w, s')"
  shows "length w = r" and "get_samples_ub (u_buffer s') = get_samples_ub (u_buffer s) + int r"
    and "u_offset s' = u_offset s"
proof -
  from assms(2) obtain s0 where g: "gns r s = Inr (w, s0)"
    and s': "s' = s0\<lparr>u_buffer := append_data w (u_buffer s0)\<rparr>"
    by (auto simp: gen_step_def split: sum.splits)
  from assms(1) g have e: "length w = r" "u_buffer s0 = u_buffer s" "u_offset s0 = u_offset s"
    unfolding exact_gns_def by blast+
  show "length w = r" by (rule e(1))
  show "get_samples_ub (u_buffer s') = get_samples_ub (u_buffer s) + int r"
    using e s' by (simp add: get_samples_ub_append_data)
  show "u_offset s' = u_offset s" using e s' by simp
qed

lemma fresh_alt:
  assumes "g = nat (u_offset s - get_samples_ub (u_buffer s))"
  shows "fresh gns r s =
     (if r \<le> g then Inr (replicate r 0, silence r s)
      else (case gen_step gns (r - g) (silence g s) of
              Inl e \<Rightarrow> Inl e
            | Inr (w, s2) \<Rightarrow> Inr (replicate g 0 @ w, s2)))"
proof -
  have fr: "fresh gns r s =
     (if min g r < r then
           (case gen_step gns (r - min g r) (silence (min g r) s) of
              Inl e \<Rightarrow> Inl e
            | Inr (w, s2) \<Rightarrow> Inr (replicate (min g r) 0 @ w, s2))
         else Inr (replicate (min g r) 0, silence (min g r) s))"
    unfolding fresh_def Let_def silence_def assms ..
  show ?thesis
  proof (cases "r \<le> g")
    case True
    then have "min g r = r" by simp
    with True show ?thesis unfolding fr by simp
  next
    case False
    then have m: "min g r = g" by simp
    from False show ?thesis unfolding fr m by simp
  qed
qed

lemma fresh_props:
  assumes "exact_gns gns" and "fresh gns r s = Inr (w, s')"
  shows "length w = r \<and> get_samples_ub (u_buffer s') = get_samples_ub (u_buffer s) + int r
         \<and> u_offset s' = u_offset s"
proof -
  define g where "g = nat (u_offset s - get_samples_ub (u_buffer s))"
  note fa = fresh_alt [OF g_def, of gns r]
  show ?thesis
  proof (cases "r \<le> g")
    case True
    with fa assms(2) have "w = replicate r 0" "s' = silence r s" by simp_all
    then show ?thesis by (simp add: silence_props)
  next
    case False
    with fa assms(2) obtain w2 where gs: "gen_step gns (r - g) (silence g s) = Inr (w2, s')"
      and w: "w = replicate g 0 @ w2"
      by (auto split: sum.splits)
    from gen_step_props [OF assms(1) gs] w False show ?thesis
      by (simp add: silence_props)
  qed
qed

lemma fresh_split:
  assumes ex: "exact_gns gns" and ch: "chunked_gns gns" and "0 < r1" and "0 < r2"
  shows "fresh gns (r1 + r2) s =
     (case fresh gns r1 s of
        Inl e \<Rightarrow> Inl e
      | Inr (w1, s1) \<Rightarrow>
          (case fresh gns r2 s1 of
             Inl e \<Rightarrow> Inl e
           | Inr (w2, s2) \<Rightarrow> Inr (w1 @ w2, s2)))"
proof -
  define g where "g = nat (u_offset s - get_samples_ub (u_buffer s))"
  note fa = fresh_alt [OF g_def, of gns]
  have g_sil: "nat (u_offset (silence k s) - get_samples_ub (u_buffer (silence k s))) = g - k" for k
    by (simp add: silence_props g_def)
  show ?thesis
  proof (cases "r1 \<le> g")
    case True
    note r1g = True
    have f1: "fresh gns r1 s = Inr (replicate r1 0, silence r1 s)" using fa [of r1] True by simp
    note fb = fresh_alt [OF g_sil [of r1, symmetric], of gns r2]
    show ?thesis
    proof (cases "r1 + r2 \<le> g")
      case True
      then have "r2 \<le> g - r1" by simp
      with fb have "fresh gns r2 (silence r1 s) = Inr (replicate r2 0, silence (r1 + r2) s)"
        by (simp add: silence_silence)
      with f1 fa [of "r1 + r2"] True show ?thesis by (simp add: replicate_add)
    next
      case False
      then have "\<not> r2 \<le> g - r1" using r1g by linarith
      with fb have f2: "fresh gns r2 (silence r1 s) =
         (case gen_step gns (r2 - (g - r1)) (silence g s) of
              Inl e \<Rightarrow> Inl e
            | Inr (w, s2) \<Rightarrow> Inr (replicate (g - r1) 0 @ w, s2))"
        using r1g by (simp add: silence_silence)
      have eq: "r2 - (g - r1) = r1 + r2 - g" using r1g False by simp
      have rep: "replicate r1 (0::real) @ replicate (g - r1) 0 = replicate g 0"
        using r1g by (simp add: replicate_add [symmetric])
      show ?thesis unfolding f1 using fa [of "r1 + r2"] False f2 eq rep
        by (simp split: sum.splits)
    qed
  next
    case False
    then have gl: "g < r1" by simp
    have f1: "fresh gns r1 s =
       (case gen_step gns (r1 - g) (silence g s) of
              Inl e \<Rightarrow> Inl e
            | Inr (w, s2) \<Rightarrow> Inr (replicate g 0 @ w, s2))"
      using fa [of r1] False by simp
    have f12: "fresh gns (r1 + r2) s =
       (case gen_step gns ((r1 - g) + r2) (silence g s) of
              Inl e \<Rightarrow> Inl e
            | Inr (w, s2) \<Rightarrow> Inr (replicate g 0 @ w, s2))"
      using fa [of "r1 + r2"] gl by simp
    have off: "u_offset (silence g s) \<le> get_samples_ub (u_buffer (silence g s))"
      by (simp add: silence_props g_def)
    have "0 < r1 - g" using gl by simp
    with ch off assms(4) have split:
      "gen_step gns ((r1 - g) + r2) (silence g s) =
        (case gen_step gns (r1 - g) (silence g s) of
           Inl e \<Rightarrow> Inl e
         | Inr (w1, s1) \<Rightarrow>
             (case gen_step gns r2 s1 of
                Inl e \<Rightarrow> Inl e
              | Inr (w2, s2) \<Rightarrow> Inr (w1 @ w2, s2)))"
      unfolding chunked_gns_def by blast
    show ?thesis
    proof (cases "gen_step gns (r1 - g) (silence g s)")
      case (Inl e)
      with f1 f12 split show ?thesis by simp
    next
      case (Inr p)
      obtain w1 s1 where p: "p = (w1, s1)" by (cases p)
      from gen_step_props [OF ex Inr [unfolded p]]
      have "nat (u_offset s1 - get_samples_ub (u_buffer s1)) = 0"
        using gl by (simp add: silence_props g_def)
      from fresh_alt [OF this [symmetric], of gns r2] assms(4)
      have "fresh gns r2 s1 = gen_step gns r2 s1"
        by (simp add: silence_def split: sum.splits)
      with f1 f12 split Inr p show ?thesis by (simp split: sum.splits)
    qed
  qed
qed

lemma ahead_shift:
  assumes "get_samples_lb b \<le> off"
  shows "ahead b (off + int a) = drop a (ahead b off)"
proof -
  have "nat (off + int a - get_samples_lb b) = a + nat (off - get_samples_lb b)"
    using assms by simp
  then show ?thesis by (simp add: ahead_def)
qed

lemma get_samples_valid_next:
  assumes ex: "exact_gns gns" and lb: "get_samples_lb (u_buffer s) \<le> off"
    and ub: "off \<le> get_samples_ub (u_buffer s)" and "length out = a"
    and res: "get_samples gns off a out s = Inr (c, s1)"
  shows "get_samples_lb (u_buffer s1) \<le> off + int a \<and> off + int a \<le> get_samples_ub (u_buffer s1)"
proof (cases "a \<le> nat (get_samples_ub (u_buffer s) - off)")
  case True
  with get_samples_valid [OF ex lb ub assms(4)] res have "s1 = s" by simp
  with True lb ub show ?thesis by simp
next
  case False
  with get_samples_valid [OF ex lb ub assms(4)] res
  obtain w where fr: "fresh gns (a - nat (get_samples_ub (u_buffer s) - off)) s = Inr (w, s1)"
    by (auto split: sum.splits)
  from fresh_props [OF ex fr] False ub
  have "get_samples_ub (u_buffer s1) = off + int a" by simp
  with get_samples_lb_le_ub [of "u_buffer s1"] show ?thesis by simp
qed

lemma get_samples_split:
  assumes ex: "exact_gns gns" and ch: "chunked_gns gns"
    and lb: "get_samples_lb (u_buffer s) \<le> off" and ub: "off \<le> get_samples_ub (u_buffer s)"
    and lo: "length out = a + b" and l1: "length out1 = a" and l2: "length out2 = b"
  shows "get_samples gns off (a + b) out s =
     (case get_samples gns off a out1 s of
        Inl e \<Rightarrow> Inl e
      | Inr (c1, s1) \<Rightarrow>
          (case get_samples gns (off + int a) b out2 s1 of
             Inl e \<Rightarrow> Inl e
           | Inr (c2, s2) \<Rightarrow> Inr (c1 @ c2, s2)))"
proof -
  define d where "d = nat (get_samples_ub (u_buffer s) - off)"
  define A where "A = ahead (u_buffer s) off"
  have lenA: "length A = d" unfolding A_def d_def using lb ub by (rule length_ahead)
  note whole = get_samples_valid [OF ex lb ub lo, folded d_def A_def]
  note first = get_samples_valid [OF ex lb ub l1, folded d_def A_def]
  show ?thesis
  proof (cases "a \<le> d")
    case True
    have lb': "get_samples_lb (u_buffer s) \<le> off + int a" using lb by simp
    have ub': "off + int a \<le> get_samples_ub (u_buffer s)" using True ub by (simp add: d_def)
    have d': "nat (get_samples_ub (u_buffer s) - (off + int a)) = d - a"
      by (simp add: d_def)
    have A': "ahead (u_buffer s) (off + int a) = drop a A"
      unfolding A_def using lb by (rule ahead_shift)
    note second = get_samples_valid [OF ex lb' ub' l2, unfolded d' A']
    have f1: "get_samples gns off a out1 s = Inr (take a A, s)" using first True by simp
    show ?thesis
    proof (cases "a + b \<le> d")
      case T2: True
      then have "b \<le> d - a" by simp
      with second have "get_samples gns (off + int a) b out2 s = Inr (take b (drop a A), s)"
        by simp
      with f1 whole T2 show ?thesis by (simp add: take_add)
    next
      case False
      then have nb: "\<not> b \<le> d - a" using True by linarith
      have eq: "b - (d - a) = a + b - d" using True False by linarith
      have "take a A @ drop a A = A" by simp
      with f1 whole False second nb eq show ?thesis by (simp split: sum.splits)
    qed
  next
    case False
    then have da: "d < a" by simp
    then have nab: "\<not> a + b \<le> d" by simp
    have f1: "get_samples gns off a out1 s =
        (case fresh gns (a - d) s of Inl e \<Rightarrow> Inl e | Inr (w, s') \<Rightarrow> Inr (A @ w, s'))"
      using first False by simp
    have w: "get_samples gns off (a + b) out s =
        (case fresh gns (a + b - d) s of Inl e \<Rightarrow> Inl e | Inr (w, s') \<Rightarrow> Inr (A @ w, s'))"
      using whole nab by simp
    show ?thesis
    proof (cases "fresh gns (a - d) s")
      case (Inl e)
      show ?thesis
      proof (cases "b = 0")
        case True
        with f1 w Inl show ?thesis by simp
      next
        case F: False
        have eq: "a + b - d = (a - d) + b" using da by simp
        have pos: "0 < a - d" "0 < b" using da F by simp_all
        have "fresh gns ((a - d) + b) s = Inl e"
          unfolding fresh_split [OF ex ch pos, of s] Inl by simp
        then have "fresh gns (a + b - d) s = Inl e" unfolding eq .
        with f1 w Inl show ?thesis by simp
      qed
    next
      case (Inr p)
      obtain w1 s1 where p: "p = (w1, s1)" by (cases p)
      note fr1 = Inr [unfolded p]
      have g1: "get_samples gns off a out1 s = Inr (A @ w1, s1)" using f1 fr1 by simp
      from get_samples_valid_next [OF ex lb ub l1 g1]
      have lb1: "get_samples_lb (u_buffer s1) \<le> off + int a"
        and ub1: "off + int a \<le> get_samples_ub (u_buffer s1)" by simp_all
      from fresh_props [OF ex fr1] da ub
      have ubeq: "get_samples_ub (u_buffer s1) = off + int a" by (simp add: d_def)
      have d1: "nat (get_samples_ub (u_buffer s1) - (off + int a)) = 0" using ubeq by simp
      have "length (ahead (u_buffer s1) (off + int a)) = 0"
        using length_ahead [OF lb1 ub1] d1 by simp
      then have A1: "ahead (u_buffer s1) (off + int a) = []" by simp
      note second = get_samples_valid [OF ex lb1 ub1 l2, unfolded d1 A1]
      show ?thesis
      proof (cases "b = 0")
        case True
        with second have "get_samples gns (off + int a) b out2 s1 = Inr ([], s1)" by simp
        with g1 w fr1 True show ?thesis by simp
      next
        case F: False
        have eq: "a + b - d = (a - d) + b" using da by simp
        have pos: "0 < a - d" "0 < b" using da F by simp_all
        have "fresh gns ((a - d) + b) s =
           (case fresh gns b s1 of Inl e \<Rightarrow> Inl e | Inr (w2, s2) \<Rightarrow> Inr (w1 @ w2, s2))"
          unfolding fresh_split [OF ex ch pos, of s] fr1 by simp
        then have fr: "fresh gns (a + b - d) s =
           (case fresh gns b s1 of Inl e \<Rightarrow> Inl e | Inr (w2, s2) \<Rightarrow> Inr (w1 @ w2, s2))"
          unfolding eq .
        have "get_samples gns (off + int a) b out2 s1 =
           (case fresh gns b s1 of Inl e \<Rightarrow> Inl e | Inr (w, s') \<Rightarrow> Inr ([] @ w, s'))"
          using second F by simp
        also have "\<dots> = (case fresh gns b s1 of Inl e \<Rightarrow> Inl e | Inr (w, s') \<Rightarrow> Inr (w, s'))"
          by (simp split: sum.splits)
        finally have sec: "get_samples gns (off + int a) b out2 s1 =
           (case fresh gns b s1 of Inl e \<Rightarrow> Inl e | Inr (w, s') \<Rightarrow> Inr (w, s'))" .
        show ?thesis unfolding w fr g1 by (simp add: sec split: sum.splits)
      qed
    qed
  qed
qed

lemma get_samples_run_single:
  assumes ex: "exact_gns gns" and ch: "chunked_gns gns"
    and "get_samples_lb (u_buffer s) \<le> off" and "off \<le> get_samples_ub (u_buffer s)"
    and "length out = sum_list (map length outs)"
  shows "get_samples_run gns off outs s = get_samples gns off (length out) out s"
  using assms(3,4,5)
proof (induction outs arbitrary: off s out)
  case Nil
  with get_samples_valid [OF ex Nil(1,2), of out 0] show ?case by simp
next
  case (Cons o1 outs)
  define rest where "rest = drop (length o1) out"
  have lr: "length rest = sum_list (map length outs)" using Cons.prems(3) by (simp add: rest_def)
  have lo: "length out = length o1 + length rest" using Cons.prems(3) lr by simp
  note split = get_samples_split [OF ex ch Cons.prems(1,2) lo refl refl]
  show ?case
  proof (cases "get_samples gns off (length o1) o1 s")
    case (Inl e)
    with split lo show ?thesis by simp
  next
    case (Inr p)
    obtain c1 s1 where p: "p = (c1, s1)" by (cases p)
    from get_samples_valid_next [OF ex Cons.prems(1,2) refl Inr [unfolded p]]
    have v: "get_samples_lb (u_buffer s1) \<le> off + int (length o1)"
            "off + int (length o1) \<le> get_samples_ub (u_buffer s1)" by simp_all
    from Cons.IH [OF v lr] split Inr p lo show ?thesis by simp
  qed
qed

lemma EpochOutput_after_activation:
  assumes "u_offset s \<le> get_samples_ub (u_buffer s)" and "0 < n"
  shows "EpochOutput_get_next_samples M n s =
     (if active s then
        (case source s of
           None \<Rightarrow> Inl AttributeError
         | Some q \<Rightarrow>
             Inr (fst (src_next M n q),
                  if src_is_complete M (snd (src_next M n q))
                  then s\<lparr>active := False, source := None\<rparr>
                  else s\<lparr>source := Some (snd (src_next M n q))\<rparr>))
      else Inr (replicate n 0, s))"
proof -
  have zp: "min (nat (max (u_offset s - get_samples_ub (u_buffer s)) 0)) n = 0"
    using assms(1) by simp
  show ?thesis
    unfolding EpochOutput_get_next_samples_def Let_def zp
    using assms(2)
    by (simp add: deactivate_def invalidate_samples_ub split: option.splits prod.splits)
qed

lemma EpochOutput_exact:
  assumes "source_contract M"
  shows "exact_gns (EpochOutput_get_next_samples M)"
  unfolding exact_gns_def
proof (intro allI impI)
  fix n s w s'
  assume r: "EpochOutput_get_next_samples M n s = Inr (w, s')"
  from assms have len: "\<And>k q. length (fst (src_next M k q)) = k"
    unfolding source_contract_def by blast
  show "length w = n \<and> u_buffer s' = u_buffer s \<and> u_offset s' = u_offset s"
  proof (cases "active s")
    case False
    with r show ?thesis by (auto simp: EpochOutput_get_next_samples_def)
  next
    case True
    define zp where "zp = min (nat (max (u_offset s - get_samples_ub (u_buffer s)) 0)) n"
    have zle: "zp \<le> n" by (simp add: zp_def)
    from r True obtain q where q: "source s = Some q"
      by (auto simp: EpochOutput_get_next_samples_def Let_def split: option.splits)
    define wq where "wq = (if n - zp \<noteq> 0 then src_next M (n - zp) q else ([], q))"
    have lw: "length (fst wq) = n - zp" using len [of "n - zp" q] by (simp add: wq_def)
    define s1 where "s1 = s\<lparr>source := Some (snd wq)\<rparr>"
    have e: "EpochOutput_get_next_samples M n s =
        (if zp = 0 \<and> n - zp = 0 then Inl ValueError
         else Inr (replicate zp 0 @ fst wq,
                   if src_is_complete M (snd wq) then deactivate (get_samples_ub (u_buffer s1)) s1
                   else s1))"
      unfolding EpochOutput_get_next_samples_def Let_def zp_def [symmetric]
      using True q by (simp add: wq_def s1_def split: prod.splits)
    from r e have w: "w = replicate zp 0 @ fst wq"
      and s': "s' = (if src_is_complete M (snd wq) then deactivate (get_samples_ub (u_buffer s1)) s1
                   else s1)"
      by (auto split: if_splits)
    from w lw zle have "length w = n" by simp
    moreover from s' have "u_buffer s' = u_buffer s" "u_offset s' = u_offset s"
      by (simp_all add: deactivate_def invalidate_samples_ub s1_def)
    ultimately show ?thesis by simp
  qed
qed

lemma EpochOutput_chunked:
  assumes "source_contract M"
  shows "chunked_gns (EpochOutput_get_next_samples M)"
  unfolding chunked_gns_def
proof (intro allI impI)
  fix a b :: nat and s :: "('a, 'b) BufferedOutput_scheme"
  assume a: "0 < a" and b: "0 < b" and off: "u_offset s \<le> get_samples_ub (u_buffer s)"
  let ?gns = "EpochOutput_get_next_samples M"
  have ab: "0 < a + b" using a by simp
  note whole = EpochOutput_after_activation [OF off ab, of M]
  note first = EpochOutput_after_activation [OF off a, of M]
  show "gen_step ?gns (a + b) s =
        (case gen_step ?gns a s of
           Inl e \<Rightarrow> Inl e
         | Inr (w1, s1) \<Rightarrow>
             (case gen_step ?gns b s1 of
                Inl e \<Rightarrow> Inl e
              | Inr (w2, s2) \<Rightarrow> Inr (w1 @ w2, s2)))"
  proof (cases "active s")
    case False
    let ?s1 = "s\<lparr>u_buffer := append_data (replicate a 0) (u_buffer s)\<rparr>"
    have "\<not> active ?s1" using False by simp
    then have "?gns b ?s1 = Inr (replicate b 0, ?s1)"
      by (simp add: EpochOutput_get_next_samples_def)
    with False whole first show ?thesis
      by (simp add: gen_step_def append_data_append replicate_add)
  next
    case True
    show ?thesis
    proof (cases "source s")
      case None
      with True whole first show ?thesis by (simp add: gen_step_def)
    next
      case (Some q)
      obtain w1 q1 where n1: "src_next M a q = (w1, q1)" by (cases "src_next M a q")
      obtain w2 q2 where n2: "src_next M b q1 = (w2, q2)" by (cases "src_next M b q1")
      from assms have "src_next M (a + b) q =
            (let (w1, q1) = src_next M a q; (w2, q2) = src_next M b q1 in (w1 @ w2, q2))"
        unfolding source_contract_def by blast
      with n1 n2 have n12: "src_next M (a + b) q = (w1 @ w2, q2)" by simp
      from assms have len: "\<And>k q. length (fst (src_next M k q)) = k"
        unfolding source_contract_def by blast
      have w: "gen_step ?gns (a + b) s =
          Inr (w1 @ w2,
               (if src_is_complete M q2 then s\<lparr>active := False, source := None\<rparr>
                else s\<lparr>source := Some q2\<rparr>)
               \<lparr>u_buffer := append_data (w1 @ w2) (u_buffer s)\<rparr>)"
        using whole True Some n12 by (simp add: gen_step_def)
      show ?thesis
      proof (cases "src_is_complete M q1")
        case c1: True
        from assms c1 have "fst (src_next M b q1) = replicate b 0
            \<and> src_is_complete M (snd (src_next M b q1))"
          unfolding source_contract_def by blast
        with n2 have w2: "w2 = replicate b 0" and c2: "src_is_complete M q2" by simp_all
        let ?s1 = "s\<lparr>active := False, source := None, u_buffer := append_data w1 (u_buffer s)\<rparr>"
        have g1: "gen_step ?gns a s = Inr (w1, ?s1)"
          using first True Some n1 c1 by (simp add: gen_step_def)
        have "\<not> active ?s1" by simp
        then have "?gns b ?s1 = Inr (replicate b 0, ?s1)"
          by (simp add: EpochOutput_get_next_samples_def)
        then have g2: "gen_step ?gns b ?s1 =
            Inr (replicate b 0, ?s1\<lparr>u_buffer := append_data (replicate b 0) (u_buffer ?s1)\<rparr>)"
          by (simp add: gen_step_def)
        show ?thesis unfolding w g1 using g2 w2 c2
          by (simp add: append_data_append)
      next
        case c1: False
        let ?s1 = "s\<lparr>source := Some q1, u_buffer := append_data w1 (u_buffer s)\<rparr>"
        have g1: "gen_step ?gns a s = Inr (w1, ?s1)"
          using first True Some n1 c1 by (simp add: gen_step_def)
        have off1: "u_offset ?s1 \<le> get_samples_ub (u_buffer ?s1)"
          using off by (simp add: get_samples_ub_append_data)
        from EpochOutput_after_activation [OF off1 b, of M] True n2
        have g2: "gen_step ?gns b ?s1 =
            Inr (w2, (if src_is_complete M q2 then ?s1\<lparr>active := False, source := None\<rparr>
                      else ?s1\<lparr>source := Some q2\<rparr>)
                     \<lparr>u_buffer := append_data w2 (u_buffer ?s1)\<rparr>)"
          by (simp add: gen_step_def)
        show ?thesis unfolding w g1 using g2
          by (simp add: append_data_append)
      qed
    qed
  qed
qed

lemma ContinuousOutput_exact:
  assumes "source_contract M"
  shows "exact_gns (ContinuousOutput_get_next_samples M)"
  unfolding exact_gns_def
proof (intro allI impI)
  fix n s w s'
  assume r: "ContinuousOutput_get_next_samples M n s = Inr (w, s')"
  from assms have len: "\<And>k q. length (fst (src_next M k q)) = k"
    unfolding source_contract_def by blast
  then have len': "\<And>k q v q'. src_next M k q = (v, q') \<Longrightarrow> length v = k"
    by (metis fst_conv)
  from r show "length w = n \<and> u_buffer s' = u_buffer s \<and> u_offset s' = u_offset s"
    by (auto simp: ContinuousOutput_get_next_samples_def dest: len'
          split: if_splits option.splits prod.splits)
qed

lemma ContinuousOutput_chunked:
  assumes "source_contract M"
  shows "chunked_gns (ContinuousOutput_get_next_samples M)"
  unfolding chunked_gns_def
proof (intro allI impI)
  fix a b :: nat and s :: "('a, 'b) BufferedOutput_scheme"
  let ?gns = "ContinuousOutput_get_next_samples M"
  show "gen_step ?gns (a + b) s =
        (case gen_step ?gns a s of
           Inl e \<Rightarrow> Inl e
         | Inr (w1, s1) \<Rightarrow>
             (case gen_step ?gns b s1 of
                Inl e \<Rightarrow> Inl e
              | Inr (w2, s2) \<Rightarrow> Inr (w1 @ w2, s2)))"
  proof (cases "active s")
    case False
    then show ?thesis
      by (simp add: gen_step_def ContinuousOutput_get_next_samples_def append_data_append
            replicate_add)
  next
    case True
    show ?thesis
    proof (cases "source s")
      case None
      with True show ?thesis by (simp add: gen_step_def ContinuousOutput_get_next_samples_def)
    next
      case (Some q)
      obtain w1 q1 where n1: "src_next M a q = (w1, q1)" by (cases "src_next M a q")
      obtain w2 q2 where n2: "src_next M b q1 = (w2, q2)" by (cases "src_next M b q1")
      from assms have "src_next M (a + b) q =
            (let (w1, q1) = src_next M a q; (w2, q2) = src_next M b q1 in (w1 @ w2, q2))"
        unfolding source_contract_def by blast
      with n1 n2 have n12: "src_next M (a + b) q = (w1 @ w2, q2)" by simp
      from True Some n1 n2 n12 show ?thesis
        by (simp add: gen_step_def ContinuousOutput_get_next_samples_def append_data_append)
    qed
  qed
qed

lemma EpochSource_contract: "source_contract EpochSource"
  unfolding source_contract_def EpochSource_def
proof (intro conjI allI impI)
  fix a b :: nat and q :: "real list"
  show "src_next \<lparr>src_next = \<lambda>n q. (take n q @ replicate (n - length q) 0, drop n q),
                   src_is_complete = \<lambda>q. q = []\<rparr> (a + b) q =
        (let (w1, q1) = src_next \<lparr>src_next = \<lambda>n q. (take n q @ replicate (n - length q) 0, drop n q),
                   src_is_complete = \<lambda>q. q = []\<rparr> a q;
             (w2, q2) = src_next \<lparr>src_next = \<lambda>n q. (take n q @ replicate (n - length q) 0, drop n q),
                   src_is_complete = \<lambda>q. q = []\<rparr> b q1
         in (w1 @ w2, q2))"
  proof (cases "a \<le> length q")
    case True
    then have "a + b - length q = b - (length q - a)" by simp
    with True show ?thesis by (simp add: take_add add.commute)
  next
    case False
    then have "a + b - length q = (a - length q) + b" by simp
    then have "replicate (a + b - length q) (0::real)
               = replicate (a - length q) 0 @ replicate b 0"
      by (simp only: replicate_add)
    with False show ?thesis by simp
  qed
qed simp_all

lemma get_samples_run_two:
  assumes "get_samples gns off (length o1) o1 s = Inr (c1, s1)"
    and "get_samples gns (off + int (length o1)) (length o2) o2 s1 = Inr (c2, s2)"
  shows "get_samples_run gns off [o1, o2] s = Inr (c1 @ c2, s2)"
  using assms by simp

lemma park_props:
  "active (park c s) = active s" "u_buffer (park c s) = u_buffer s"
  "u_offset (park c s) = u_offset s" "park c (park c s) = park c s"
  "park c (s\<lparr>u_buffer := b\<rparr>) = (park c s)\<lparr>u_buffer := b\<rparr>"
  "(park c s)\<lparr>queue := c\<rparr> = s\<lparr>queue := c\<rparr>"
  by (simp_all add: park_def)

lemma park_active: "active s \<Longrightarrow> park c s = s"
  by (simp add: park_def)

lemma park_eq:
  assumes "park c s = park c t"
  shows "active t = active s" "u_buffer t = u_buffer s" "u_offset t = u_offset s"
    and "active s \<Longrightarrow> t = s"
proof -
  from assms have "active (park c s) = active (park c t)" by simp
  then show a: "active t = active s" by (simp add: park_props)
  from assms have "u_buffer (park c s) = u_buffer (park c t)" by simp
  then show "u_buffer t = u_buffer s" by (simp add: park_props)
  from assms have "u_offset (park c s) = u_offset (park c t)" by simp
  then show "u_offset t = u_offset s" by (simp add: park_props)
  show "t = s" if "active s" using that a assms by (simp add: park_def)
qed

lemma Queued_explicit:
  "QueuedEpochOutput_get_next_samples Q n s =
     Inr (if active s then
            (fst (pop_buffer Q n (auto_decrement s) (queue s)),
             if complete_cb s \<noteq> None \<and> is_empty Q (snd (pop_buffer Q n (auto_decrement s) (queue s)))
             then s\<lparr>queue := snd (pop_buffer Q n (auto_decrement s) (queue s)),
                    complete := complete s + 1,
                    deferred_calls := deferred_calls s @ [the (complete_cb s)],
                    active := False\<rparr>
             else s\<lparr>queue := snd (pop_buffer Q n (auto_decrement s) (queue s))\<rparr>)
          else (replicate n 0, s))"
  by (simp add: QueuedEpochOutput_get_next_samples_def Let_def split: prod.splits option.splits)

lemma Queued_exact:
  assumes "queue_contract Q"
  shows "exact_gns (QueuedEpochOutput_get_next_samples Q)"
proof -
  from assms have len: "\<And>n d q. length (fst (pop_buffer Q n d q)) = n"
    unfolding queue_contract_def by blast
  show ?thesis
    unfolding exact_gns_def Queued_explicit using len by (auto split: if_splits)
qed

lemma parked_gns_exact:
  assumes "queue_contract Q"
  shows "exact_gns (parked_gns c Q)"
  unfolding exact_gns_def
proof (intro allI impI)
  fix n s w s'
  assume r: "parked_gns c Q n s = Inr (w, s')"
  then obtain s0 where g: "QueuedEpochOutput_get_next_samples Q n s = Inr (w, s0)"
    and s': "s' = park c s0"
    by (auto simp: parked_gns_def parked_def split: sum.splits)
  from Queued_exact [OF assms] g
  have "length w = n" "u_buffer s0 = u_buffer s" "u_offset s0 = u_offset s"
    unfolding exact_gns_def by blast+
  with s' show "length w = n \<and> u_buffer s' = u_buffer s \<and> u_offset s' = u_offset s"
    by (simp add: park_props)
qed

lemma parked_gns_inactive:
  "\<not> active s \<Longrightarrow> parked_gns c Q n s = Inr (replicate n 0, s\<lparr>queue := c\<rparr>)"
  by (simp add: parked_gns_def parked_def Queued_explicit park_def)

lemma parked_gns_chunked:
  assumes qc: "queue_contract Q"
  shows "chunked_gns (parked_gns c Q)"
  unfolding chunked_gns_def
proof (intro allI impI)
  fix a b :: nat and s :: "('a, 'b) QueuedEpochOutput_scheme"
  let ?gns = "parked_gns c Q"
  show "gen_step ?gns (a + b) s =
        (case gen_step ?gns a s of
           Inl e \<Rightarrow> Inl e
         | Inr (w1, s1) \<Rightarrow>
             (case gen_step ?gns b s1 of
                Inl e \<Rightarrow> Inl e
              | Inr (w2, s2) \<Rightarrow> Inr (w1 @ w2, s2)))"
  proof (cases "active s")
    case False
    let ?s1 = "s\<lparr>queue := c, u_buffer := append_data (replicate a 0) (u_buffer s)\<rparr>"
    have "\<not> active ?s1" using False by simp
    from parked_gns_inactive [OF this, of c Q b] parked_gns_inactive [OF False, of c Q]
    show ?thesis
      by (simp add: gen_step_def append_data_append replicate_add)
  next
    case True
    define d where "d = auto_decrement s"
    obtain w1 q1 where n1: "pop_buffer Q a d (queue s) = (w1, q1)"
      by (cases "pop_buffer Q a d (queue s)")
    obtain w2 q2 where n2: "pop_buffer Q b d q1 = (w2, q2)" by (cases "pop_buffer Q b d q1")
    from qc have "pop_buffer Q (a + b) d (queue s) =
          (let (w1, q1) = pop_buffer Q a d (queue s); (w2, q2) = pop_buffer Q b d q1
           in (w1 @ w2, q2))"
      unfolding queue_contract_def by blast
    with n1 n2 have n12: "pop_buffer Q (a + b) d (queue s) = (w1 @ w2, q2)" by simp
    define fire where "fire = (\<lambda>q. s\<lparr>queue := q, complete := complete s + 1,
        deferred_calls := deferred_calls s @ [the (complete_cb s)], active := False\<rparr>)"
    have whole: "gen_step ?gns (a + b) s =
        Inr (w1 @ w2,
             (if complete_cb s \<noteq> None \<and> is_empty Q q2 then fire c else s\<lparr>queue := q2\<rparr>)
             \<lparr>u_buffer := append_data (w1 @ w2) (u_buffer s)\<rparr>)"
      using True n12
      by (simp add: gen_step_def parked_gns_def parked_def Queued_explicit d_def [symmetric]
            park_def fire_def)
    have first: "gen_step ?gns a s =
        Inr (w1,
             (if complete_cb s \<noteq> None \<and> is_empty Q q1 then fire c else s\<lparr>queue := q1\<rparr>)
             \<lparr>u_buffer := append_data w1 (u_buffer s)\<rparr>)"
      using True n1
      by (simp add: gen_step_def parked_gns_def parked_def Queued_explicit d_def [symmetric]
            park_def fire_def)
    show ?thesis
    proof (cases "complete_cb s \<noteq> None \<and> is_empty Q q1")
      case e1: True
      from qc e1 have "fst (pop_buffer Q b d q1) = replicate b 0
          \<and> is_empty Q (snd (pop_buffer Q b d q1))"
        unfolding queue_contract_def by blast
      with n2 have w2: "w2 = replicate b 0" and e2: "is_empty Q q2" by simp_all
      let ?s1 = "(fire c)\<lparr>u_buffer := append_data w1 (u_buffer s)\<rparr>"
      have "\<not> active ?s1" by (simp add: fire_def)
      from parked_gns_inactive [OF this, of c Q b]
      have g2: "gen_step ?gns b ?s1 =
          Inr (replicate b 0, ?s1\<lparr>u_buffer := append_data (replicate b 0) (u_buffer ?s1)\<rparr>)"
        by (simp add: gen_step_def fire_def)
      show ?thesis unfolding whole first using e1 e2 w2 g2
        by (simp add: append_data_append)
    next
      case e1: False
      let ?s1 = "s\<lparr>queue := q1, u_buffer := append_data w1 (u_buffer s)\<rparr>"
      have g2: "gen_step ?gns b ?s1 =
          Inr (w2,
               (if complete_cb s \<noteq> None \<and> is_empty Q q2 then fire c else s\<lparr>queue := q2\<rparr>)
               \<lparr>u_buffer := append_data (w1 @ w2) (u_buffer s)\<rparr>)"
        using True n2
        by (simp add: gen_step_def parked_gns_def parked_def Queued_explicit d_def [symmetric]
              park_def fire_def append_data_append)
      have first': "gen_step ?gns a s = Inr (w1, ?s1)"
        unfolding first using e1 by auto
      show ?thesis unfolding whole first' using g2 by simp
    qed
  qed
qed

lemma parked_step:
  assumes "park c s = park c t"
  shows "parked c (QueuedEpochOutput_get_next_samples Q n s) = parked_gns c Q n t"
proof (cases "active s")
  case True
  with park_eq(4) [OF assms] show ?thesis by (simp add: parked_gns_def)
next
  case False
  with park_eq(1) [OF assms] have "\<not> active t" by simp
  with False assms show ?thesis
    by (simp add: parked_gns_def parked_def Queued_explicit)
qed

lemma parked_gen_step:
  assumes "park c s = park c t"
  shows "parked c (gen_step (QueuedEpochOutput_get_next_samples Q) n s)
         = gen_step (parked_gns c Q) n t"
proof -
  have "\<exists>p. QueuedEpochOutput_get_next_samples Q n s = Inr p"
    by (simp add: Queued_explicit)
  then obtain w s0 where g: "QueuedEpochOutput_get_next_samples Q n s = Inr (w, s0)"
    by auto
  from parked_step [OF assms, of Q n] g have p: "parked_gns c Q n t = Inr (w, park c s0)"
    by (simp add: parked_def)
  show ?thesis
    unfolding gen_step_def g p by (simp add: parked_def park_props)
qed

lemma parked_silence:
  assumes "park c s = park c t"
  shows "park c (silence k s) = park c (silence k t)"
  using assms park_eq(2) [OF assms] by (simp add: silence_def park_props)

lemma parked_fresh:
  assumes "park c s = park c t"
  shows "parked c (fresh (QueuedEpochOutput_get_next_samples Q) r s)
         = parked c (fresh (parked_gns c Q) r t)"
proof -
  define g where "g = nat (u_offset s - get_samples_ub (u_buffer s))"
  have gt: "g = nat (u_offset t - get_samples_ub (u_buffer t))"
    using park_eq(2,3) [OF assms] by (simp add: g_def)
  note fs = fresh_alt [OF g_def, of "QueuedEpochOutput_get_next_samples Q" r]
  note ft = fresh_alt [OF gt, of "parked_gns c Q" r]
  show ?thesis
  proof (cases "r \<le> g")
    case True
    with fs ft parked_silence [OF assms, of r] show ?thesis by (simp add: parked_def)
  next
    case False
    note st = parked_gen_step [OF parked_silence [OF assms, of g], of Q "r - g"]
    show ?thesis
    proof (cases "gen_step (QueuedEpochOutput_get_next_samples Q) (r - g) (silence g s)")
      case (Inl e)
      with st fs ft False show ?thesis by (simp add: parked_def)
    next
      case (Inr p)
      obtain w s2 where p: "p = (w, s2)" by (cases p)
      from st Inr p have "gen_step (parked_gns c Q) (r - g) (silence g t) = Inr (w, park c s2)"
        by (simp add: parked_def)
      with fs ft False Inr p show ?thesis by (simp add: parked_def park_props)
    qed
  qed
qed

lemma parked_get_samples:
  assumes qc: "queue_contract Q" and pk: "park c s = park c t"
    and lb: "get_samples_lb (u_buffer s) \<le> off" and ub: "off \<le> get_samples_ub (u_buffer s)"
    and lo: "length out = n"
  shows "parked c (get_samples (QueuedEpochOutput_get_next_samples Q) off n out s)
         = parked c (get_samples (parked_gns c Q) off n out t)"
proof -
  note bt = park_eq(2) [OF pk]
  have lbt: "get_samples_lb (u_buffer t) \<le> off" and ubt: "off \<le> get_samples_ub (u_buffer t)"
    using lb ub bt by simp_all
  note vs = get_samples_valid [OF Queued_exact [OF qc] lb ub lo]
  note vt = get_samples_valid [OF parked_gns_exact [OF qc] lbt ubt lo, of c, unfolded bt]
  define r where "r = n - nat (get_samples_ub (u_buffer s) - off)"
  note pf = parked_fresh [OF pk, of Q r]
  show ?thesis
  proof (cases "n \<le> nat (get_samples_ub (u_buffer s) - off)")
    case True
    with vs vt pk show ?thesis by (simp add: parked_def)
  next
    case False
    show ?thesis
    proof (cases "fresh (QueuedEpochOutput_get_next_samples Q) r s")
      case l: (Inl e)
      with pf have "fresh (parked_gns c Q) r t = Inl e"
        by (cases "fresh (parked_gns c Q) r t") (simp_all add: parked_def split: prod.splits)
      with l vs vt False show ?thesis by (simp add: parked_def r_def)
    next
      case l: (Inr p)
      obtain w s2 where p: "p = (w, s2)" by (cases p)
      from pf l p obtain t2 where ft: "fresh (parked_gns c Q) r t = Inr (w, t2)"
        and pt: "park c s2 = park c t2"
        by (cases "fresh (parked_gns c Q) r t") (auto simp: parked_def split: prod.splits)
      from l p ft pt vs vt False show ?thesis by (simp add: parked_def r_def)
    qed
  qed
qed

lemma parked_get_samples_run:
  assumes qc: "queue_contract Q"
  shows "park c s = park c t \<Longrightarrow> get_samples_lb (u_buffer s) \<le> off
    \<Longrightarrow> off \<le> get_samples_ub (u_buffer s)
    \<Longrightarrow> parked c (get_samples_run (QueuedEpochOutput_get_next_samples Q) off outs s)
         = parked c (get_samples_run (parked_gns c Q) off outs t)"
proof (induction outs arbitrary: off s t)
  case Nil
  then show ?case by (simp add: parked_def)
next
  case (Cons o1 outs)
  note step = parked_get_samples [OF qc Cons.prems(1,2,3) refl, of o1]
  show ?case
  proof (cases "get_samples (QueuedEpochOutput_get_next_samples Q) off (length o1) o1 s")
    case (Inl e)
    with step have "get_samples (parked_gns c Q) off (length o1) o1 t = Inl e"
      by (cases "get_samples (parked_gns c Q) off (length o1) o1 t")
         (simp_all add: parked_def split: prod.splits)
    with Inl show ?thesis by (simp add: parked_def)
  next
    case (Inr p)
    obtain c1 s1 where p: "p = (c1, s1)" by (cases p)
    from step Inr p obtain t1
      where gt: "get_samples (parked_gns c Q) off (length o1) o1 t = Inr (c1, t1)"
        and pt: "park c s1 = park c t1"
      by (cases "get_samples (parked_gns c Q) off (length o1) o1 t")
         (auto simp: parked_def split: prod.splits)
    from get_samples_valid_next [OF Queued_exact [OF qc] Cons.prems(2,3) refl Inr [unfolded p]]
    have v: "get_samples_lb (u_buffer s1) \<le> off + int (length o1)"
            "off + int (length o1) \<le> get_samples_ub (u_buffer s1)" by simp_all
    note ih = Cons.IH [OF pt v]
    show ?thesis
    proof (cases "get_samples_run (QueuedEpochOutput_get_next_samples Q)
                    (off + int (length o1)) outs s1")
      case l: (Inl e)
      with ih have "get_samples_run (parked_gns c Q) (off + int (length o1)) outs t1 = Inl e"
        by (cases "get_samples_run (parked_gns c Q) (off + int (length o1)) outs t1")
           (simp_all add: parked_def split: prod.splits)
      with l Inr p gt show ?thesis by (simp add: parked_def)
    next
      case l: (Inr p2)
      obtain c2 s2 where p2: "p2 = (c2, s2)" by (cases p2)
      from ih l p2 obtain t2
        where rt: "get_samples_run (parked_gns c Q) (off + int (length o1)) outs t1 = Inr (c2, t2)"
          and pt2: "park c s2 = park c t2"
        by (cases "get_samples_run (parked_gns c Q) (off + int (length o1)) outs t1")
           (auto simp: parked_def split: prod.splits)
      from l p2 rt pt2 Inr p gt show ?thesis by (simp add: parked_def)
    qed
  qed
qed

lemma except_queue_parked: "except_queue c (parked c r) = except_queue c r"
  by (cases r) (auto simp: except_queue_def parked_def park_props)

lemma Queued_chunked_pulls:
  assumes qc: "queue_contract Q"
    and lb: "get_samples_lb (u_buffer s) \<le> off" and ub: "off \<le> get_samples_ub (u_buffer s)"
    and lo: "length out = sum_list (map length outs)"
  shows "except_queue c (get_samples_run (QueuedEpochOutput_get_next_samples Q) off outs s)
         = except_queue c (get_samples (QueuedEpochOutput_get_next_samples Q) off (length out) out s)"
proof -
  have "parked c (get_samples_run (QueuedEpochOutput_get_next_samples Q) off outs s)
        = parked c (get_samples_run (parked_gns c Q) off outs s)"
    by (rule parked_get_samples_run [OF qc refl lb ub])
  also have "get_samples_run (parked_gns c Q) off outs s
        = get_samples (parked_gns c Q) off (length out) out s"
    by (rule get_samples_run_single [OF parked_gns_exact [OF qc] parked_gns_chunked [OF qc]
          lb ub lo])
  also have "parked c (get_samples (parked_gns c Q) off (length out) out s)
        = parked c (get_samples (QueuedEpochOutput_get_next_samples Q) off (length out) out s)"
    by (rule parked_get_samples [OF qc refl lb ub refl, symmetric])
  finally have "except_queue c (parked c (get_samples_run (QueuedEpochOutput_get_next_samples Q) off outs s))
        = except_queue c (parked c (get_samples (QueuedEpochOutput_get_next_samples Q) off (length out) out s))"
    by simp
  then show ?thesis unfolding except_queue_parked .
qed

lemma SampleQueue_contract: "queue_contract SampleQueue"
  unfolding queue_contract_def SampleQueue_def
proof (intro conjI allI impI)
  fix a b :: nat and d :: bool and q :: "real list"
  show "pop_buffer \<lparr>pop_buffer = \<lambda>n dec q. (take n q @ replicate (n - length q) 0, drop n q),
                   is_empty = \<lambda>q. q = [], queue_pause = \<lambda>t q. q, queue_resume = \<lambda>t q. q\<rparr> (a + b) d q =
        (let (w1, q1) = pop_buffer \<lparr>pop_buffer = \<lambda>n dec q. (take n q @ replicate (n - length q) 0, drop n q),
                   is_empty = \<lambda>q. q = [], queue_pause = \<lambda>t q. q, queue_resume = \<lambda>t q. q\<rparr> a d q;
             (w2, q2) = pop_buffer \<lparr>pop_buffer = \<lambda>n dec q. (take n q @ replicate (n - length q) 0, drop n q),
                   is_empty = \<lambda>q. q = [], queue_pause = \<lambda>t q. q, queue_resume = \<lambda>t q. q\<rparr> b d q1
         in (w1 @ w2, q2))"
  proof (cases "a \<le> length q")
    case True
    then have "a + b - length q = b - (length q - a)" by simp
    with True show ?thesis by (simp add: take_add add.commute)
  next
    case False
    then have "a + b - length q = (a - length q) + b" by simp
    then have "replicate (a + b - length q) (0::real)
               = replicate (a - length q) 0 @ replicate b 0"
      by (simp only: replicate_add)
    with False show ?thesis by simp
  qed
qed simp_all

text \<open>
  Claim C1, as amended. Take a buffered output channel (an \<^verbatim>\<open>EpochOutput\<close>, a
  \<^verbatim>\<open>ContinuousOutput\<close> or a \<^verbatim>\<open>QueuedEpochOutput\<close>) whose source or queue keeps the
  contract of a waveform source, and a first offset that lies in the cached range of the
  buffer (not below its lower bound, not above its upper bound). Then a run of
  \<^verbatim>\<open>get_samples\<close> calls without gaps returns, chunk after chunk, the samples that one
  call for the joint length returns from the same state, whatever the arrays held before,
  and it fails where the one call fails. It also ends in the same state; for a queued
  channel, in the same state but for what the queue holds once the channel is
  deactivated.
\<close>

theorem C1_chunked_pulls_equal_single_pull:
  assumes "source_contract M" and "queue_contract Q"
    and "get_samples_lb (u_buffer s) \<le> off" and "off \<le> get_samples_ub (u_buffer s)"
    and "get_samples_lb (u_buffer t) \<le> off" and "off \<le> get_samples_ub (u_buffer t)"
    and "length out = sum_list (map length outs)"
  shows "get_samples_run (EpochOutput_get_next_samples M) off outs s
           = get_samples (EpochOutput_get_next_samples M) off (length out) out s
       \<and> get_samples_run (ContinuousOutput_get_next_samples M) off outs s
           = get_samples (ContinuousOutput_get_next_samples M) off (length out) out s
       \<and> except_queue c (get_samples_run (QueuedEpochOutput_get_next_samples Q) off outs t)
           = except_queue c
               (get_samples (QueuedEpochOutput_get_next_samples Q) off (length out) out t)"
  using get_samples_run_single [OF EpochOutput_exact [OF assms(1)]
          EpochOutput_chunked [OF assms(1)] assms(3,4,7)]
        get_samples_run_single [OF ContinuousOutput_exact [OF assms(1)]
          ContinuousOutput_chunked [OF assms(1)] assms(3,4,7)]
        Queued_chunked_pulls [OF assms(2,5,6,7)]
  by simp

theorem C1_chunked_pulls_witness:
  "source_contract EpochSource \<and> queue_contract SampleQueue
   \<and> get_samples_lb (u_buffer example_epoch) \<le> 3 \<and> 3 \<le> get_samples_ub (u_buffer example_epoch)
   \<and> get_samples_lb (u_buffer example_queued) \<le> 3 \<and> 3 \<le> get_samples_ub (u_buffer example_queued)
   \<and> length [9, 9, 9, 9, 9 :: real] = sum_list (map length [[9, 9], [9, 9, 9 :: real]])
   \<and> get_samples_run (EpochOutput_get_next_samples EpochSource) 3 [[9, 9], [9, 9, 9]] example_epoch
       = get_samples (EpochOutput_get_next_samples EpochSource) 3 5 [9, 9, 9, 9, 9] example_epoch
   \<and> get_samples (EpochOutput_get_next_samples EpochSource) 3 5 [9, 9, 9, 9, 9] example_epoch
       = Inr ([4, 5, 1, 2, 0],
              example_epoch\<lparr>active := False, source := None,
                u_buffer := \<lparr>capacity = 8, samples_ub = 8, cached = [1, 2, 3, 4, 5, 1, 2, 0]\<rparr>\<rparr>)
   \<and> except_queue []
         (get_samples_run (QueuedEpochOutput_get_next_samples SampleQueue) 3 [[9, 9], [9, 9, 9]]
            example_queued)
       = except_queue []
           (get_samples (QueuedEpochOutput_get_next_samples SampleQueue) 3 5 [9, 9, 9, 9, 9]
              example_queued)
   \<and> get_samples (QueuedEpochOutput_get_next_samples SampleQueue) 3 5 [9, 9, 9, 9, 9]
         example_queued
       = Inr ([4, 5, 1, 2, 3],
              example_queued\<lparr>queue := [], complete := 1, deferred_calls := [5], active := False,
                u_buffer := \<lparr>capacity = 8, samples_ub = 8, cached = [1, 2, 3, 4, 5, 1, 2, 3]\<rparr>\<rparr>)"
proof -
  have len: "length [9, 9, 9, 9, 9 :: real] = sum_list (map length [[9, 9], [9, 9, 9 :: real]])"
    by simp
  have lb: "get_samples_lb (u_buffer example_epoch) \<le> 3"
    and ub: "3 \<le> get_samples_ub (u_buffer example_epoch)"
    by (simp_all add: example_epoch_def example_buffer_def get_samples_lb_def get_samples_ub_def)
  have fb: "from_buffer 3 5 [9, 9, 9, 9, 9] example_buffer = Inr ([4, 5, 9, 9, 9], 3, 5)"
    by (simp add: from_buffer_def example_buffer_def get_samples_lb_def get_samples_ub_def
          get_range_samples_def assign_slice_def Let_def)
  have ba: "before_activation ([4, 5, 9, 9, 9], 3, 5) example_epoch
            = Inr (([4, 5, 9, 9, 9], 3, 5), example_epoch)"
    by (simp add: before_activation_def example_epoch_def)
  have gn: "EpochOutput_get_next_samples EpochSource 3 example_epoch
            = Inr ([1, 2, 0], example_epoch\<lparr>active := False, source := None\<rparr>)"
    by (simp add: EpochOutput_get_next_samples_def example_epoch_def example_buffer_def
          EpochSource_def get_samples_ub_def Let_def deactivate_def invalidate_samples_def
          get_samples_lb_def)
  have ge: "generate (EpochOutput_get_next_samples EpochSource) ([4, 5, 9, 9, 9], 3, 5) example_epoch
            = Inr ([4, 5, 1, 2, 0],
                   example_epoch\<lparr>active := False, source := None,
                     u_buffer := \<lparr>capacity = 8, samples_ub = 8,
                                  cached = [1, 2, 3, 4, 5, 1, 2, 0]\<rparr>\<rparr>)"
    unfolding generate_def prod.case gn
    by (simp add: assign_slice_def append_data_def example_epoch_def example_buffer_def Let_def)
  have single: "get_samples (EpochOutput_get_next_samples EpochSource) 3 5 [9, 9, 9, 9, 9] example_epoch
       = Inr ([4, 5, 1, 2, 0],
              example_epoch\<lparr>active := False, source := None,
                u_buffer := \<lparr>capacity = 8, samples_ub = 8, cached = [1, 2, 3, 4, 5, 1, 2, 0]\<rparr>\<rparr>)"
    unfolding get_samples_def using fb ba ge by (simp add: example_epoch_def)
  have lbq: "get_samples_lb (u_buffer example_queued) \<le> 3"
    and ubq: "3 \<le> get_samples_ub (u_buffer example_queued)"
    by (simp_all add: example_queued_def example_buffer_def get_samples_lb_def get_samples_ub_def)
  have baq: "before_activation ([4, 5, 9, 9, 9], 3, 5) example_queued
            = Inr (([4, 5, 9, 9, 9], 3, 5), example_queued)"
    by (simp add: before_activation_def example_queued_def)
  have gnq: "QueuedEpochOutput_get_next_samples SampleQueue 3 example_queued
            = Inr ([1, 2, 3], example_queued\<lparr>queue := [], complete := 1, deferred_calls := [5],
                                active := False\<rparr>)"
    by (simp add: QueuedEpochOutput_get_next_samples_def example_queued_def SampleQueue_def)
  have geq: "generate (QueuedEpochOutput_get_next_samples SampleQueue) ([4, 5, 9, 9, 9], 3, 5)
              example_queued
            = Inr ([4, 5, 1, 2, 3],
                   example_queued\<lparr>queue := [], complete := 1, deferred_calls := [5],
                     active := False,
                     u_buffer := \<lparr>capacity = 8, samples_ub = 8,
                                  cached = [1, 2, 3, 4, 5, 1, 2, 3]\<rparr>\<rparr>)"
    unfolding generate_def prod.case gnq
    by (simp add: assign_slice_def append_data_def example_queued_def example_buffer_def Let_def)
  have singleq: "get_samples (QueuedEpochOutput_get_next_samples SampleQueue) 3 5 [9, 9, 9, 9, 9]
         example_queued
       = Inr ([4, 5, 1, 2, 3],
              example_queued\<lparr>queue := [], complete := 1, deferred_calls := [5], active := False,
                u_buffer := \<lparr>capacity = 8, samples_ub = 8, cached = [1, 2, 3, 4, 5, 1, 2, 3]\<rparr>\<rparr>)"
    unfolding get_samples_def using fb baq geq by (simp add: example_queued_def)
  have l5: "length [9, 9, 9, 9, 9 :: real] = 5" by simp
  note all = C1_chunked_pulls_equal_single_pull
      [OF EpochSource_contract SampleQueue_contract lb ub lbq ubq len, unfolded l5]
  note run = all [THEN conjunct1]
  note runq = all [THEN conjunct2, THEN conjunct2]
  show ?thesis
    by (intro conjI)
       (rule EpochSource_contract SampleQueue_contract lb ub lbq ubq len run single runq singleq)+
qed

text \<open>
  The claim as stated fails for a run that starts below the cached range. The buffer
  holds the offsets 2 to 5, the channel is inactive. A request from offset 0 matches no
  branch of the comparison with the cached range, so new samples are generated and
  appended at the upper bound. Two pulls of two samples from offset 0 return two
  generated zeros and then the cached samples 1 and 2; one pull of four samples returns
  four generated zeros.
\<close>

theorem C1_evicted_start_counterexample:
  "fst (projr (get_samples_run (EpochOutput_get_next_samples EpochSource) 0 [[9, 9], [9, 9]]
                 example_evicted)) = [0, 0, 1, 2]
   \<and> fst (projr (get_samples (EpochOutput_get_next_samples EpochSource) 0 4 [9, 9, 9, 9]
                 example_evicted)) = [0, 0, 0, 0]
   \<and> get_samples_run (EpochOutput_get_next_samples EpochSource) 0 [[9, 9], [9, 9]] example_evicted
       \<noteq> get_samples (EpochOutput_get_next_samples EpochSource) 0 4 [9, 9, 9, 9] example_evicted"
proof -
  let ?gns = "EpochOutput_get_next_samples EpochSource :: nat \<Rightarrow> (real list) BufferedOutput \<Rightarrow> _"
  let ?b1 = "\<lparr>capacity = 8, samples_ub = 8, cached = [1, 2, 3, 4, 0, 0]\<rparr>"
  let ?b2 = "\<lparr>capacity = 8, samples_ub = 10, cached = [1, 2, 3, 4, 0, 0, 0, 0]\<rparr>"
  have z: "\<And>n t. \<not> active t \<Longrightarrow> ?gns n t = Inr (replicate n 0, t)"
    by (simp add: EpochOutput_get_next_samples_def)
  have first: "get_samples ?gns 0 (length [9, 9 :: real]) [9, 9] example_evicted
               = Inr ([0, 0], example_evicted\<lparr>u_buffer := ?b1\<rparr>)"
    by (simp add: get_samples_def from_buffer_def before_activation_def generate_def z
          example_evicted_def get_samples_lb_def get_samples_ub_def assign_slice_def
          append_data_def Let_def numeral_eq_Suc)
  have second: "get_samples ?gns (0 + int (length [9, 9 :: real])) (length [9, 9 :: real]) [9, 9]
                  (example_evicted\<lparr>u_buffer := ?b1\<rparr>)
               = Inr ([1, 2], example_evicted\<lparr>u_buffer := ?b1\<rparr>)"
    by (simp add: get_samples_def from_buffer_def before_activation_def generate_def
          example_evicted_def get_samples_lb_def get_samples_ub_def assign_slice_def
          get_range_samples_def Let_def)
  have run: "get_samples_run ?gns 0 [[9, 9], [9, 9]] example_evicted
             = Inr ([0, 0, 1, 2], example_evicted\<lparr>u_buffer := ?b1\<rparr>)"
    using get_samples_run_two [OF first second] by simp
  have single: "get_samples ?gns 0 4 [9, 9, 9, 9] example_evicted
               = Inr ([0, 0, 0, 0], example_evicted\<lparr>u_buffer := ?b2\<rparr>)"
    by (simp add: get_samples_def from_buffer_def before_activation_def generate_def z
          example_evicted_def get_samples_lb_def get_samples_ub_def assign_slice_def
          append_data_def Let_def numeral_eq_Suc)
  show ?thesis unfolding run single by simp
qed

section \<open>Completion of an epoch source\<close>





section \<open>The log of the trial queue\<close>




















end
